theory Spec2Isabelle
  imports Main "HOL-Library.Multiset"
begin

section \<open>Common data\<close>

text \<open>
  A Python \<open>str\<close> is a sequence of Unicode code points and \<open>len\<close> counts code points,
  so a string is modelled as the list of its code points.  ASCII literals are written
  through \<open>asc\<close>; the CJK literals of the source are spelled out by code point.
\<close>

type_synonym pystr = "nat list"

definition asc :: "string \<Rightarrow> pystr" where
  "asc s = map of_char s"

text \<open>
  The exceptions the modelled code raises; \<open>Failure\<close> stands for any other exception and
  carries \<open>str(e)\<close>.  \<open>TimeoutError\<close> is the one of \<open>concurrent.futures\<close>.
\<close>

datatype exn = ValueError | KeyError | IndexError | UnicodeEncodeError | TimeoutError | Failure pystr

section \<open>The credential pool: \<open>APIRotator\<close> (cross\_validator.py)\<close>

text \<open>
  The fields that decide which key is handed out.  \<open>clients\<close> is the set of keys of the
  \<open>clients\<close> dictionary.  The float-valued statistics (\<open>last_use_time\<close>,
  \<open>response_times\<close>, \<open>avg_response_time\<close>) are only ever written by the methods
  modelled here and are left out.
\<close>

record 'k rotator =
  api_keys :: "'k list"
  current_index :: nat
  clients :: "'k set"
  usage_count :: "'k \<rightharpoonup> int"
  error_count :: "'k \<rightharpoonup> int"
  success_count :: "'k \<rightharpoonup> int"
  blacklisted :: "'k set"

text \<open>
  \<open>__init__\<close>: \<open>client_ok key\<close> tells whether \<open>genai.Client(api_key=key)\<close> returned;
  a key whose client could not be built is blacklisted from the start.
\<close>

definition zero_counts :: "'k list \<Rightarrow> ('k \<rightharpoonup> int)" where
  "zero_counts ks = (\<lambda>k. if k \<in> set ks then Some 0 else None)"

definition rotator_init :: "'k list \<Rightarrow> ('k \<Rightarrow> bool) \<Rightarrow> 'k rotator" where
  "rotator_init ks client_ok =
     \<lparr> api_keys = ks, current_index = 0,
       clients = {k \<in> set ks. client_ok k},
       usage_count = zero_counts ks,
       error_count = zero_counts ks,
       success_count = zero_counts ks,
       blacklisted = {k \<in> set ks. \<not> client_ok k} \<rparr>"

text \<open>
  \<open>report_error\<close>: \<open>self.error_count[api_key] += 1\<close> raises \<open>KeyError\<close> for an unknown
  key; at three or more errors the key joins the blacklist.
\<close>

definition report_error :: "'k rotator \<Rightarrow> 'k \<Rightarrow> (exn + unit) \<times> 'k rotator" where
  "report_error s k =
     (case error_count s k of
        None \<Rightarrow> (Inl KeyError, s)
      | Some c \<Rightarrow>
          let s1 = s\<lparr>error_count := (error_count s)(k \<mapsto> c + 1)\<rparr>
          in if c + 1 \<ge> 3
             then (Inr (), s1\<lparr>blacklisted := insert k (blacklisted s1)\<rparr>)
             else (Inr (), s1))"

text \<open>
  \<open>report_success\<close>: a positive counter goes down by one (never below zero); a key whose
  counter is zero leaves the blacklist; the success counter goes up.  The response-time
  bookkeeping that follows touches only the omitted statistics.
\<close>

definition report_success :: "'k rotator \<Rightarrow> 'k \<Rightarrow> (exn + unit) \<times> 'k rotator" where
  "report_success s k =
     (case error_count s k of
        None \<Rightarrow> (Inl KeyError, s)
      | Some c \<Rightarrow>
          let c1 = (if c > 0 then max 0 (c - 1) else c);
              s1 = (if c > 0 then s\<lparr>error_count := (error_count s)(k \<mapsto> c1)\<rparr> else s);
              s2 = (if c1 = 0 \<and> k \<in> blacklisted s1
                    then s1\<lparr>blacklisted := blacklisted s1 - {k}\<rparr> else s1)
          in (case success_count s2 k of
                None \<Rightarrow> (Inl KeyError, s2)
              | Some n \<Rightarrow> (Inr (), s2\<lparr>success_count := (success_count s2)(k \<mapsto> n + 1)\<rparr>)))"

text \<open>The pool after \<open>n\<close> consecutive failure (success) reports for one key.\<close>

definition failures :: "nat \<Rightarrow> 'k \<Rightarrow> 'k rotator \<Rightarrow> 'k rotator" where
  "failures n k s = ((\<lambda>t. snd (report_error t k)) ^^ n) s"

definition successes :: "nat \<Rightarrow> 'k \<Rightarrow> 'k rotator \<Rightarrow> 'k rotator" where
  "successes n k s = ((\<lambda>t. snd (report_success t k)) ^^ n) s"

subsection \<open>Circuit breaker\<close>

lemma report_error_step:
  assumes "error_count s k = Some c"
  shows "fst (report_error s k) = Inr ()"
    and "error_count (snd (report_error s k)) k = Some (c + 1)"
    and "k \<in> blacklisted (snd (report_error s k)) \<longleftrightarrow> k \<in> blacklisted s \<or> c + 1 \<ge> 3"
    and "success_count (snd (report_error s k)) = success_count s"
  using assms by (simp_all add: report_error_def Let_def)

lemma report_success_step:
  assumes "error_count s k = Some c" and "success_count s k = Some n"
  shows "fst (report_success s k) = Inr ()"
    and "error_count (snd (report_success s k)) k = Some (if c > 0 then c - 1 else c)"
    and "k \<in> blacklisted (snd (report_success s k)) \<longleftrightarrow>
           k \<in> blacklisted s \<and> (if c > 0 then c - 1 else c) \<noteq> 0"
    and "success_count (snd (report_success s k)) k = Some (n + 1)"
  using assms by (auto simp add: report_success_def Let_def)

lemma failures_count:
  assumes "error_count s k = Some c"
  shows "error_count (failures n k s) k = Some (c + int n) \<and>
         (k \<in> blacklisted (failures n k s) \<longleftrightarrow>
            k \<in> blacklisted s \<or> (n > 0 \<and> c + int n \<ge> 3))"
proof (induction n)
  case 0
  show ?case using assms by (simp add: failures_def)
next
  case (Suc n)
  let ?t = "failures n k s"
  have step: "failures (Suc n) k s = snd (report_error ?t k)"
    by (simp add: failures_def)
  from Suc have ec: "error_count ?t k = Some (c + int n)" by simp
  show ?case
    unfolding step using report_error_step(2,3)[OF ec] Suc by auto
qed

lemma successes_count:
  assumes "error_count s k = Some c" and "success_count s k = Some m" and "0 \<le> c"
  shows "error_count (successes n k s) k = Some (max 0 (c - int n)) \<and>
         success_count (successes n k s) k = Some (m + int n) \<and>
         (k \<in> blacklisted (successes n k s) \<longleftrightarrow>
            k \<in> blacklisted s \<and> (n = 0 \<or> c - int n > 0))"
proof (induction n)
  case 0
  show ?case using assms by (simp add: successes_def)
next
  case (Suc n)
  let ?t = "successes n k s"
  have step: "successes (Suc n) k s = snd (report_success ?t k)"
    by (simp add: successes_def)
  from Suc have ec: "error_count ?t k = Some (max 0 (c - int n))"
    and sc: "success_count ?t k = Some (m + int n)" by simp_all
  show ?case
    unfolding step using report_success_step(2,3,4)[OF ec sc] Suc assms(3)
    by (auto simp add: max_def split: if_splits)
qed

text \<open>
  C7.  For a credential the pool knows (its counters exist):
  a failure report adds one to its consecutive-error counter and leaves it blacklisted
  exactly if it already was or the new counter is at least 3; counted from a counter of
  zero and an empty blacklist entry, the credential is blacklisted after \<open>n\<close> failures
  exactly when \<open>n \<ge> 3\<close>.  A success report takes one off a positive counter and leaves the
  credential blacklisted exactly if it was and the new counter is not zero; after as many
  successes as the counter held (at least one), the credential is off the blacklist.
\<close>

theorem circuit_breaker:
  assumes "error_count s k = Some c" and "success_count s k = Some m" and "0 \<le> c"
  shows "fst (report_error s k) = Inr () \<and>
         error_count (snd (report_error s k)) k = Some (c + 1) \<and>
         (k \<in> blacklisted (snd (report_error s k)) \<longleftrightarrow> k \<in> blacklisted s \<or> c + 1 \<ge> 3) \<and>
         (c = 0 \<and> k \<notin> blacklisted s \<longrightarrow>
            (\<forall>n. k \<in> blacklisted (failures n k s) \<longleftrightarrow> n \<ge> 3)) \<and>
         fst (report_success s k) = Inr () \<and>
         error_count (snd (report_success s k)) k = Some (if c > 0 then c - 1 else 0) \<and>
         (k \<in> blacklisted (snd (report_success s k)) \<longleftrightarrow> k \<in> blacklisted s \<and> c - 1 > 0) \<and>
         (\<forall>n. n \<ge> 1 \<and> int n \<ge> c \<longrightarrow> k \<notin> blacklisted (successes n k s))"
proof -
  have f: "c = 0 \<and> k \<notin> blacklisted s \<longrightarrow>
             (\<forall>n. k \<in> blacklisted (failures n k s) \<longleftrightarrow> n \<ge> 3)"
  proof (intro impI allI)
    fix n assume a: "c = 0 \<and> k \<notin> blacklisted s"
    from failures_count[OF assms(1), of n] a
    have "k \<in> blacklisted (failures n k s) \<longleftrightarrow> (n > 0 \<and> int n \<ge> 3)" by simp
    also have "\<dots> \<longleftrightarrow> n \<ge> 3" by presburger
    finally show "k \<in> blacklisted (failures n k s) \<longleftrightarrow> n \<ge> 3" .
  qed
  have g: "\<forall>n. n \<ge> 1 \<and> int n \<ge> c \<longrightarrow> k \<notin> blacklisted (successes n k s)"
  proof (intro impI allI)
    fix n assume a: "n \<ge> 1 \<and> int n \<ge> c"
    from successes_count[OF assms, of n] a
    show "k \<notin> blacklisted (successes n k s)" by simp
  qed
  have e1: "fst (report_error s k) = Inr ()"
    by (rule report_error_step(1)[OF assms(1)])
  have e2: "error_count (snd (report_error s k)) k = Some (c + 1)"
    by (rule report_error_step(2)[OF assms(1)])
  have e3: "k \<in> blacklisted (snd (report_error s k)) \<longleftrightarrow> k \<in> blacklisted s \<or> c + 1 \<ge> 3"
    by (rule report_error_step(3)[OF assms(1)])
  have s1: "fst (report_success s k) = Inr ()"
    by (rule report_success_step(1)[OF assms(1,2)])
  have s2: "error_count (snd (report_success s k)) k = Some (if c > 0 then c - 1 else 0)"
    using report_success_step(2)[OF assms(1,2)] assms(3) by simp
  have s3: "k \<in> blacklisted (snd (report_success s k)) \<longleftrightarrow> k \<in> blacklisted s \<and> c - 1 > 0"
  proof -
    have "(if c > 0 then c - 1 else c) \<noteq> 0 \<longleftrightarrow> c - 1 > 0"
      using assms(3) by (cases "c > 0") auto
    then show ?thesis
      using report_success_step(3)[OF assms(1,2)] by simp
  qed
  from e1 e2 e3 f s1 s2 s3 g show ?thesis by (intro conjI)
qed

theorem circuit_breaker_witness:
  "error_count (rotator_init [1::nat, 2] (\<lambda>_. True)) 1 = Some 0 \<and>
   success_count (rotator_init [1::nat, 2] (\<lambda>_. True)) 1 = Some 0 \<and>
   1 \<notin> blacklisted (rotator_init [1::nat, 2] (\<lambda>_. True)) \<and>
   1 \<notin> blacklisted (failures 2 1 (rotator_init [1::nat, 2] (\<lambda>_. True))) \<and>
   1 \<in> blacklisted (failures 3 1 (rotator_init [1::nat, 2] (\<lambda>_. True))) \<and>
   1 \<notin> blacklisted (successes 1 1 (rotator_init [1::nat, 2] (\<lambda>_. True)))"
proof -
  let ?s = "rotator_init [1::nat, 2] (\<lambda>_. True)"
  have h1: "error_count ?s 1 = Some 0"
    by (simp add: rotator_init_def zero_counts_def)
  have h2: "success_count ?s 1 = Some 0"
    by (simp add: rotator_init_def zero_counts_def)
  have h3: "1 \<notin> blacklisted ?s"
    by (simp add: rotator_init_def)
  have h4: "(0::int) \<le> 0" by simp
  note cb = circuit_breaker[OF h1 h2 h4]
  have a: "\<forall>n. (1 \<in> blacklisted (failures n 1 ?s)) \<longleftrightarrow> n \<ge> 3"
    using cb h3 by (elim conjE) simp
  have b: "\<forall>n. n \<ge> 1 \<and> int n \<ge> 0 \<longrightarrow> 1 \<notin> blacklisted (successes n 1 ?s)"
    using cb by (elim conjE)
  have a2: "1 \<notin> blacklisted (failures 2 1 ?s)" using spec[OF a, of 2] by simp
  have a3: "1 \<in> blacklisted (failures 3 1 ?s)" using spec[OF a, of 3] by simp
  have b1: "1 \<notin> blacklisted (successes 1 1 ?s)" using spec[OF b, of 1] by simp
  from h1 h2 h3 a2 a3 b1 show ?thesis by (intro conjI)
qed

subsection \<open>Handing out the next credential: \<open>get_next_client\<close>\<close>

text \<open>\<open>xs.index(x)\<close> for an \<open>x\<close> that occurs in \<open>xs\<close>: the position of its first occurrence.\<close>

definition index_of :: "'a list \<Rightarrow> 'a \<Rightarrow> nat" where
  "index_of xs x = length (takeWhile (\<lambda>y. y \<noteq> x) xs)"

text \<open>
  The \<open>while next_index not in available_indices\<close> loop.  \<open>None\<close> stands for a loop that
  does not end; \<open>available_indices[0]\<close> raises \<open>IndexError\<close> on an empty list.
\<close>

partial_function (option) find_next :: "nat list \<Rightarrow> nat \<Rightarrow> nat \<Rightarrow> nat \<Rightarrow> (exn + nat) option" where
  "find_next available_indices n cur next_index =
     (if next_index \<in> set available_indices then Some (Inr next_index)
      else let next_index' = (next_index + 1) mod n
           in if next_index' = cur
              then (case available_indices of
                      [] \<Rightarrow> Some (Inl IndexError)
                    | i # _ \<Rightarrow> Some (Inr i))
              else find_next available_indices n cur next_index')"

text \<open>
  The statistics update and the final \<open>self.clients[selected_key]\<close>; both dictionary
  accesses raise \<open>KeyError\<close> for a missing key, the second one after the usage counter
  has been written.
\<close>

definition hand_out :: "'k rotator \<Rightarrow> 'k \<Rightarrow> (exn + 'k) \<times> 'k rotator" where
  "hand_out s selected_key =
     (case usage_count s selected_key of
        None \<Rightarrow> (Inl KeyError, s)
      | Some u \<Rightarrow>
          let s1 = s\<lparr>usage_count := (usage_count s)(selected_key \<mapsto> u + 1)\<rparr>
          in if selected_key \<in> clients s1 then (Inr selected_key, s1)
             else (Inl KeyError, s1))"

definition get_next_client :: "'k rotator \<Rightarrow> ((exn + 'k) \<times> 'k rotator) option" where
  "get_next_client s =
     (if api_keys s = [] then Some (Inl ValueError, s)
      else
        let unlisted = filter (\<lambda>key. key \<notin> blacklisted s) (api_keys s);
            s1 = (if unlisted = []
                  then s\<lparr>blacklisted := {}, error_count := zero_counts (api_keys s)\<rparr>
                  else s);
            available_keys = (if unlisted = [] then api_keys s else unlisted)
        in if length available_keys = 1
           then Some (hand_out s1 (available_keys ! 0))
           else
             let available_indices = map (index_of (api_keys s)) available_keys
             in (case find_next available_indices (length (api_keys s))
                         (current_index s) (current_index s) of
                   None \<Rightarrow> None
                 | Some (Inl e) \<Rightarrow> Some (Inl e, s1)
                 | Some (Inr next_index) \<Rightarrow>
                     if next_index < length (api_keys s)
                     then Some (hand_out
                                  (s1\<lparr>current_index := (next_index + 1) mod length (api_keys s)\<rparr>)
                                  (api_keys s ! next_index))
                     else Some (Inl IndexError, s1)))"

lemma find_next_returns:
  assumes "cur < n" and "k < n" and "available_indices \<noteq> []"
  shows "\<exists>i \<in> set available_indices.
           find_next available_indices n cur ((cur + k) mod n) = Some (Inr i)"
  using assms(2)
proof (induction "n - k" arbitrary: k)
  case 0
  then show ?case by simp
next
  case (Suc d)
  let ?x = "(cur + k) mod n"
  show ?case
  proof (cases "?x \<in> set available_indices")
    case True
    then show ?thesis by (subst find_next.simps) simp
  next
    case False
    have nx: "(?x + 1) mod n = (cur + (k + 1)) mod n"
      by (simp add: mod_simps add.assoc)
    show ?thesis
    proof (cases "k + 1 = n")
      case True
      then have "(?x + 1) mod n = cur" using nx assms(1) by simp
      moreover obtain i rest where "available_indices = i # rest"
        using assms(3) by (cases available_indices) auto
      ultimately show ?thesis using False
        by (subst find_next.simps) simp
    next
      case False
      with Suc.prems have lt: "k + 1 < n" by simp
      have ne: "(?x + 1) mod n \<noteq> cur"
      proof
        assume "(?x + 1) mod n = cur"
        then have "(cur + (k + 1)) mod n = cur mod n" using nx assms(1) by simp
        then have "(k + 1) mod n = 0"
          by (metis add_cancel_right_right mod_add_left_eq mod_add_self2 mod_self
              add_diff_cancel_left' mod_eq_dvd_iff_nat le_add1 dvd_eq_mod_eq_0)
        with lt show False by simp
      qed
      from Suc(2) lt have "d = n - (k + 1)" by simp
      from Suc(1)[OF this lt] obtain i where
        "i \<in> set available_indices"
        "find_next available_indices n cur ((cur + (k + 1)) mod n) = Some (Inr i)" by blast
      then show ?thesis
        using \<open>?x \<notin> set available_indices\<close> ne nx
        by (subst find_next.simps) (auto simp: Let_def)
    qed
  qed
qed

lemma index_of_nth:
  "x \<in> set xs \<Longrightarrow> index_of xs x < length xs \<and> xs ! index_of xs x = x"
  unfolding index_of_def by (induction xs) auto

lemma index_of_distinct:
  assumes "distinct xs" and "i < length xs"
  shows "index_of xs (xs ! i) = i"
proof -
  have m: "xs ! i \<in> set xs" using assms(2) by simp
  from index_of_nth[OF m] assms show ?thesis
    by (metis nth_eq_iff_index_eq)
qed

lemma hand_out_ok:
  assumes "usage_count s k = Some u" and "k \<in> clients s"
  shows "hand_out s k = (Inr k, s\<lparr>usage_count := (usage_count s)(k \<mapsto> u + 1)\<rparr>)"
  using assms by (simp add: hand_out_def Let_def)

text \<open>The list of keys to choose from and the pool after a possible blacklist reset.\<close>

definition available_keys :: "'k rotator \<Rightarrow> 'k list" where
  "available_keys s =
     (if filter (\<lambda>key. key \<notin> blacklisted s) (api_keys s) = [] then api_keys s
      else filter (\<lambda>key. key \<notin> blacklisted s) (api_keys s))"

definition after_reset :: "'k rotator \<Rightarrow> 'k rotator" where
  "after_reset s =
     (if filter (\<lambda>key. key \<notin> blacklisted s) (api_keys s) = []
      then s\<lparr>blacklisted := {}, error_count := zero_counts (api_keys s)\<rparr> else s)"

lemma hand_out_cases:
  "\<exists>t'. (hand_out t key = (Inr key, t') \<or> hand_out t key = (Inl KeyError, t')) \<and>
        blacklisted t' = blacklisted t \<and> error_count t' = error_count t \<and>
        (usage_count t key \<noteq> None \<and> key \<in> clients t \<longrightarrow> hand_out t key = (Inr key, t'))"
  by (cases "usage_count t key") (auto simp add: hand_out_def Let_def)

lemma get_next_client_shape:
  assumes keys: "api_keys (s :: 'k rotator) \<noteq> []"
    and cur: "current_index s < length (api_keys s)"
  shows "\<exists>key r s'. get_next_client s = Some (r, s') \<and> key \<in> set (available_keys s) \<and>
           (r = Inr key \<or> r = Inl KeyError) \<and>
           (usage_count s key \<noteq> None \<and> key \<in> clients s \<longrightarrow> r = Inr key) \<and>
           blacklisted s' = blacklisted (after_reset s) \<and>
           error_count s' = error_count (after_reset s) \<and>
           (set (api_keys s) \<subseteq> blacklisted s \<and> distinct (api_keys s) \<longrightarrow>
              key = api_keys s ! current_index s)"
proof -
  let ?av = "available_keys s" and ?s1 = "after_reset s"
  let ?n = "length (api_keys s)" and ?c = "current_index s"
  have av_ne: "?av \<noteq> []" using keys by (simp add: available_keys_def)
  have av_all: "?av = api_keys s" if "set (api_keys s) \<subseteq> blacklisted s"
    using that by (auto simp add: available_keys_def filter_empty_conv)
  have s1_fields: "usage_count ?s1 = usage_count s" "clients ?s1 = clients s"
    by (simp_all add: after_reset_def)
  show ?thesis
  proof (cases "length ?av = 1")
    case True
    let ?key = "?av ! 0"
    have m: "?key \<in> set ?av" using True by (cases ?av) auto
    from hand_out_cases[of ?s1 ?key] obtain t' where
      t': "hand_out ?s1 ?key = (Inr ?key, t') \<or> hand_out ?s1 ?key = (Inl KeyError, t')"
          "blacklisted t' = blacklisted ?s1" "error_count t' = error_count ?s1"
          "usage_count ?s1 ?key \<noteq> None \<and> ?key \<in> clients ?s1 \<longrightarrow>
             hand_out ?s1 ?key = (Inr ?key, t')"
      by blast
    have g: "get_next_client s = Some (hand_out ?s1 ?key)"
      using keys True by (simp add: get_next_client_def available_keys_def after_reset_def Let_def)
    have c: "?key = api_keys s ! ?c" if "set (api_keys s) \<subseteq> blacklisted s"
    proof -
      from av_all[OF that] True have "?n = 1" by simp
      with cur have "?c = 0" by simp
      with av_all[OF that] show ?thesis by simp
    qed
    from t'(1) show ?thesis
    proof
      assume h: "hand_out ?s1 ?key = (Inr ?key, t')"
      show ?thesis
        by (rule exI[of _ ?key], rule exI[of _ "Inr ?key"], rule exI[of _ t'])
           (use g h m t'(2,3) c in simp)
    next
      assume h: "hand_out ?s1 ?key = (Inl KeyError, t')"
      with t'(4) have "\<not> (usage_count s ?key \<noteq> None \<and> ?key \<in> clients s)"
        using s1_fields by auto
      then show ?thesis
        by (intro exI[of _ ?key] exI[of _ "Inl KeyError"] exI[of _ t'])
           (use g h m t'(2,3) c in auto)
    qed
  next
    case False
    let ?ix = "map (index_of (api_keys s)) ?av"
    have ixne: "?ix \<noteq> []" using av_ne by simp
    have npos: "0 < ?n" using keys by simp
    have "(?c + 0) mod ?n = ?c" using cur by simp
    with find_next_returns[OF cur npos ixne] obtain i where
      i: "i \<in> set ?ix" "find_next ?ix ?n ?c ?c = Some (Inr i)"
      by metis
    from i(1) obtain key where key: "key \<in> set ?av" "i = index_of (api_keys s) key" by auto
    have av_sub: "set ?av \<subseteq> set (api_keys s)" by (auto simp: available_keys_def)
    with key have kin: "key \<in> set (api_keys s)" by auto
    from index_of_nth[OF kin] key have ilt: "i < ?n" and ikey: "api_keys s ! i = key" by simp_all
    let ?s2 = "?s1\<lparr>current_index := (i + 1) mod ?n\<rparr>"
    have s2_fields: "usage_count ?s2 = usage_count s" "clients ?s2 = clients s"
      "blacklisted ?s2 = blacklisted ?s1" "error_count ?s2 = error_count ?s1"
      using s1_fields by simp_all
    from hand_out_cases[of ?s2 key] obtain t' where
      t': "hand_out ?s2 key = (Inr key, t') \<or> hand_out ?s2 key = (Inl KeyError, t')"
          "blacklisted t' = blacklisted ?s2" "error_count t' = error_count ?s2"
          "usage_count ?s2 key \<noteq> None \<and> key \<in> clients ?s2 \<longrightarrow>
             hand_out ?s2 key = (Inr key, t')"
      by blast
    have g: "get_next_client s = Some (hand_out ?s2 key)"
      using keys False i(2) ilt ikey
      by (simp add: get_next_client_def available_keys_def after_reset_def Let_def)
    have c: "key = api_keys s ! ?c"
      if a: "set (api_keys s) \<subseteq> blacklisted s" and d: "distinct (api_keys s)"
    proof -
      have "?c \<in> set ?ix"
        using index_of_distinct[OF d cur] cur av_all[OF a] by (metis image_eqI list.set_map nth_mem)
      then have "find_next ?ix ?n ?c ?c = Some (Inr ?c)"
        by (subst find_next.simps) simp
      with i(2) have "i = ?c" by simp
      with ikey show ?thesis by simp
    qed
    from t'(1) show ?thesis
    proof
      assume h: "hand_out ?s2 key = (Inr key, t')"
      show ?thesis
        by (rule exI[of _ key], rule exI[of _ "Inr key"], rule exI[of _ t'])
           (use g h key(1) t'(2,3) s2_fields c in simp)
    next
      assume h: "hand_out ?s2 key = (Inl KeyError, t')"
      with t'(4) have "\<not> (usage_count s key \<noteq> None \<and> key \<in> clients s)"
        using s2_fields by auto
      then show ?thesis
        by (intro exI[of _ key] exI[of _ "Inl KeyError"] exI[of _ t'])
           (use g h key(1) t'(2,3) s2_fields c in auto)
    qed
  qed
qed

lemma get_next_client_cursor:
  assumes keys: "api_keys s \<noteq> []"
    and cur: "current_index s < length (api_keys s)"
    and uc: "set (api_keys s) \<subseteq> dom (usage_count s)"
    and cl: "set (api_keys s) \<subseteq> clients s"
    and all: "set (api_keys s) \<subseteq> blacklisted s"
    and dist: "distinct (api_keys s)"
  shows "fst (the (get_next_client s)) = Inr (api_keys s ! current_index s)"
proof -
  let ?n = "length (api_keys s)" and ?c = "current_index s"
  let ?key = "api_keys s ! ?c"
  have fl: "filter (\<lambda>key. key \<notin> blacklisted s) (api_keys s) = []"
    using all by (auto simp: filter_empty_conv)
  let ?s1 = "s\<lparr>blacklisted := {}, error_count := zero_counts (api_keys s)\<rparr>"
  have kin: "?key \<in> set (api_keys s)" using cur by simp
  from kin uc obtain u where u: "usage_count s ?key = Some u" by auto
  from kin cl have c: "?key \<in> clients s" by auto
  show ?thesis
  proof (cases "?n = 1")
    case True
    with cur have "?c = 0" by simp
    with True keys fl u c show ?thesis
      by (simp add: get_next_client_def Let_def hand_out_def)
  next
    case False
    have "?c \<in> set (map (index_of (api_keys s)) (api_keys s))"
      using index_of_distinct[OF dist cur] kin by (metis image_eqI list.set_map)
    then have "find_next (map (index_of (api_keys s)) (api_keys s)) ?n ?c ?c = Some (Inr ?c)"
      by (subst find_next.simps) simp
    with False keys fl u c cur show ?thesis
      by (simp add: get_next_client_def Let_def hand_out_def)
  qed
qed

text \<open>
  C8 (as amended).  On a pool with at least one credential and its cursor inside the key
  list, \<open>get_next_client\<close> ends; a key it returns is one of the pool's keys and is not on
  the blacklist the call leaves behind; and it does return a key when every key has a
  usage counter and a client.  When every key was blacklisted, the call empties the
  blacklist, sets every error counter to zero and (for pairwise different keys) hands out
  the key under the rotation cursor; otherwise the blacklist is unchanged.
\<close>

theorem get_next_client_healthy:
  assumes keys: "api_keys s \<noteq> []"
    and cur: "current_index s < length (api_keys s)"
  shows "\<exists>r s'. get_next_client s = Some (r, s') \<and>
           (\<forall>key. r = Inr key \<longrightarrow> key \<in> set (api_keys s) \<and> key \<notin> blacklisted s') \<and>
           (set (api_keys s) \<subseteq> dom (usage_count s) \<and> set (api_keys s) \<subseteq> clients s \<longrightarrow>
              (\<exists>key. r = Inr key)) \<and>
           (if set (api_keys s) \<subseteq> blacklisted s
            then blacklisted s' = {} \<and> error_count s' = zero_counts (api_keys s) \<and>
                 (distinct (api_keys s) \<longrightarrow>
                    (\<forall>key. r = Inr key \<longrightarrow> key = api_keys s ! current_index s))
            else blacklisted s' = blacklisted s)"
proof -
  from get_next_client_shape[OF assms] obtain key r s' where
    g: "get_next_client s = Some (r, s')" and av: "key \<in> set (available_keys s)"
    and r: "r = Inr key \<or> r = Inl KeyError"
    and ok: "usage_count s key \<noteq> None \<and> key \<in> clients s \<longrightarrow> r = Inr key"
    and bl: "blacklisted s' = blacklisted (after_reset s)"
    and ec: "error_count s' = error_count (after_reset s)"
    and cu: "set (api_keys s) \<subseteq> blacklisted s \<and> distinct (api_keys s) \<longrightarrow>
              key = api_keys s ! current_index s"
    by blast
  have kin: "key \<in> set (api_keys s)"
    using av by (auto simp: available_keys_def split: if_splits)
  have same: "k = key" if "r = Inr k" for k using r that by auto
  have p2: "set (api_keys s) \<subseteq> dom (usage_count s) \<and> set (api_keys s) \<subseteq> clients s \<longrightarrow>
              (\<exists>k. r = Inr k)"
    using ok kin by blast
  show ?thesis
  proof (cases "set (api_keys s) \<subseteq> blacklisted s")
    case True
    then have fl: "filter (\<lambda>key. key \<notin> blacklisted s) (api_keys s) = []"
      by (auto simp: filter_empty_conv)
    have b0: "blacklisted s' = {}" using bl fl by (simp add: after_reset_def)
    have e0: "error_count s' = zero_counts (api_keys s)" using ec fl by (simp add: after_reset_def)
    have p1: "\<forall>k. r = Inr k \<longrightarrow> k \<in> set (api_keys s) \<and> k \<notin> blacklisted s'"
      using same kin b0 by auto
    have p3: "distinct (api_keys s) \<longrightarrow> (\<forall>k. r = Inr k \<longrightarrow> k = api_keys s ! current_index s)"
      using same cu True by auto
    show ?thesis
      by (rule exI[of _ r], rule exI[of _ s']) (use g p1 p2 p3 b0 e0 True in simp)
  next
    case False
    then have fl: "filter (\<lambda>key. key \<notin> blacklisted s) (api_keys s) \<noteq> []"
      by (auto simp: filter_empty_conv)
    have b1: "blacklisted s' = blacklisted s" using bl fl by (simp add: after_reset_def)
    have "key \<notin> blacklisted s" using av fl by (simp add: available_keys_def)
    then have p1: "\<forall>k. r = Inr k \<longrightarrow> k \<in> set (api_keys s) \<and> k \<notin> blacklisted s'"
      using same kin b1 by auto
    show ?thesis
      by (rule exI[of _ r], rule exI[of _ s']) (use g p1 p2 b1 False in simp)
  qed
qed

theorem get_next_client_healthy_witness:
  "api_keys (rotator_init [1::nat, 2, 3] (\<lambda>_. True)) \<noteq> [] \<and>
   current_index (rotator_init [1::nat, 2, 3] (\<lambda>_. True))
     < length (api_keys (rotator_init [1::nat, 2, 3] (\<lambda>_. True))) \<and>
   (\<exists>key s'. get_next_client (rotator_init [1::nat, 2, 3] (\<lambda>_. True)) = Some (Inr key, s') \<and>
      key \<in> {1, 2, 3} \<and> key \<notin> blacklisted s' \<and> blacklisted s' = {})"
proof -
  let ?s = "rotator_init [1::nat, 2, 3] (\<lambda>_. True)"
  have h1: "api_keys ?s \<noteq> []" by (simp add: rotator_init_def)
  have h2: "current_index ?s < length (api_keys ?s)" by (simp add: rotator_init_def)
  have h3: "set (api_keys ?s) \<subseteq> dom (usage_count ?s)"
    by (simp add: rotator_init_def zero_counts_def dom_def)
  have h4: "set (api_keys ?s) \<subseteq> clients ?s" by (simp add: rotator_init_def)
  have k: "set (api_keys ?s) = {1, 2, 3}" by (simp add: rotator_init_def)
  have b: "blacklisted ?s = {}" by (simp add: rotator_init_def)
  have nb: "\<not> set (api_keys ?s) \<subseteq> blacklisted ?s" unfolding k b by simp
  from get_next_client_healthy[OF h1 h2] obtain r s' where
    g: "get_next_client ?s = Some (r, s')"
    and p1: "\<forall>key. r = Inr key \<longrightarrow> key \<in> set (api_keys ?s) \<and> key \<notin> blacklisted s'"
    and p2: "set (api_keys ?s) \<subseteq> dom (usage_count ?s) \<and> set (api_keys ?s) \<subseteq> clients ?s \<longrightarrow>
              (\<exists>key. r = Inr key)"
    and p3: "if set (api_keys ?s) \<subseteq> blacklisted ?s
            then blacklisted s' = {} \<and> error_count s' = zero_counts (api_keys ?s) \<and>
                 (distinct (api_keys ?s) \<longrightarrow>
                    (\<forall>key. r = Inr key \<longrightarrow> key = api_keys ?s ! current_index ?s))
            else blacklisted s' = blacklisted ?s"
    by blast
  from p2 h3 h4 obtain key where key: "r = Inr key" by blast
  from p3 nb b have b': "blacklisted s' = {}" by simp
  from p1 key k have "key \<in> {1, 2, 3} \<and> key \<notin> blacklisted s'" by blast
  with g key b' have "\<exists>key s'. get_next_client ?s = Some (Inr key, s') \<and>
      key \<in> {1, 2, 3} \<and> key \<notin> blacklisted s' \<and> blacklisted s' = {}"
    by blast
  with h1 h2 show ?thesis by (intro conjI)
qed


lemma report_error_frame:
  "api_keys (snd (report_error s k)) = api_keys s"
  "current_index (snd (report_error s k)) = current_index s"
  "clients (snd (report_error s k)) = clients s"
  "usage_count (snd (report_error s k)) = usage_count s"
  "blacklisted s \<subseteq> blacklisted (snd (report_error s k))"
  "dom (error_count (snd (report_error s k))) = dom (error_count s)"
  by (auto simp add: report_error_def Let_def split: option.splits)

lemma failures_frame:
  "api_keys (failures n k s) = api_keys s \<and>
   current_index (failures n k s) = current_index s \<and>
   clients (failures n k s) = clients s \<and>
   usage_count (failures n k s) = usage_count s \<and>
   blacklisted s \<subseteq> blacklisted (failures n k s) \<and>
   dom (error_count (failures n k s)) = dom (error_count s)"
proof (induction n)
  case 0
  show ?case by (simp add: failures_def)
next
  case (Suc n)
  have step: "failures (Suc n) k s = snd (report_error (failures n k s) k)"
    by (simp add: failures_def)
  show ?case unfolding step report_error_frame(1-4,6)
    using Suc report_error_frame(5)[of "failures n k s" k] by auto
qed

lemma first_acquire:
  "get_next_client (rotator_init [1::nat, 2, 3] (\<lambda>_. True)) =
     Some (Inr 1, (rotator_init [1, 2, 3] (\<lambda>_. True))
             \<lparr>current_index := 1, usage_count := (zero_counts [1, 2, 3])(1 \<mapsto> 1)\<rparr>)"
  by (simp add: get_next_client_def rotator_init_def zero_counts_def hand_out_def
      index_of_def Let_def find_next.simps)

lemma report_error_other:
  "j \<noteq> k \<Longrightarrow> error_count (snd (report_error s k)) j = error_count s j"
  by (simp add: report_error_def Let_def split: option.splits)

lemma failures_other:
  "j \<noteq> k \<Longrightarrow> error_count (failures n k s) j = error_count s j"
proof (induction n)
  case 0
  show ?case by (simp add: failures_def)
next
  case (Suc n)
  have step: "failures (Suc n) k s = snd (report_error (failures n k s) k)"
    by (simp add: failures_def)
  show ?case unfolding step using Suc report_error_other by metis
qed

text \<open>
  A pool of three keys after one acquire (which hands out the first key and moves the
  cursor to the second) and three failure reports for every key.
\<close>

definition pool_all_failed :: "nat rotator" where
  "pool_all_failed =
     failures 3 3 (failures 3 2 (failures 3 1
       (snd (the (get_next_client (rotator_init [1, 2, 3] (\<lambda>_. True)))))))"

lemma failures_fields:
  "api_keys (failures n k s) = api_keys s"
  "current_index (failures n k s) = current_index s"
  "clients (failures n k s) = clients s"
  "usage_count (failures n k s) = usage_count s"
  using failures_frame[of n k s] by blast+

lemma failures_keeps_blacklisted: "j \<in> blacklisted s \<Longrightarrow> j \<in> blacklisted (failures n k s)"
  using failures_frame[of n k s] by blast

lemma pool_all_failed_fields:
  "api_keys pool_all_failed = [1, 2, 3]"
  "current_index pool_all_failed = 1"
  "clients pool_all_failed = {1, 2, 3}"
  "usage_count pool_all_failed = (zero_counts [1, 2, 3])(1 \<mapsto> 1)"
  "{1, 2, 3} \<subseteq> blacklisted pool_all_failed"
proof -
  let ?a = "snd (the (get_next_client (rotator_init [1::nat, 2, 3] (\<lambda>_. True))))"
  let ?b = "failures 3 1 ?a" let ?c = "failures 3 2 ?b"
  have a: "?a = (rotator_init [1, 2, 3] (\<lambda>_. True))
             \<lparr>current_index := 1, usage_count := (zero_counts [1, 2, 3])(1 \<mapsto> 1)\<rparr>"
    by (subst first_acquire) simp
  have ea: "error_count ?a = zero_counts [1, 2, 3]"
    by (subst a) (simp add: rotator_init_def)
  have p: "pool_all_failed = failures 3 3 ?c" by (simp add: pool_all_failed_def)
  show "api_keys pool_all_failed = [1, 2, 3]"
    unfolding p failures_fields by (subst a) (simp add: rotator_init_def)
  show "current_index pool_all_failed = 1"
    unfolding p failures_fields by (subst a) (simp add: rotator_init_def)
  show "clients pool_all_failed = {1, 2, 3}"
    unfolding p failures_fields by (subst a) (auto simp add: rotator_init_def)
  show "usage_count pool_all_failed = (zero_counts [1, 2, 3])(1 \<mapsto> 1)"
    unfolding p failures_fields by (subst a) (simp add: rotator_init_def)
  have e1: "error_count ?a 1 = Some 0" by (subst ea) (simp add: zero_counts_def)
  have "error_count ?b 2 = error_count ?a 2" by (rule failures_other) simp
  then have e2: "error_count ?b 2 = Some 0" by (subst (asm) ea) (simp add: zero_counts_def)
  have "error_count ?c 3 = error_count ?b 3" by (rule failures_other) simp
  also have "\<dots> = error_count ?a 3" by (rule failures_other) simp
  finally have e3: "error_count ?c 3 = Some 0" by (subst (asm) ea) (simp add: zero_counts_def)
  have b1: "1 \<in> blacklisted ?b" using failures_count[OF e1, of 3] by simp
  have b2: "2 \<in> blacklisted ?c" using failures_count[OF e2, of 3] by simp
  have b3: "3 \<in> blacklisted (failures 3 3 ?c)" using failures_count[OF e3, of 3] by simp
  have c1: "1 \<in> blacklisted (failures 3 3 ?c)"
    by (intro failures_keeps_blacklisted b1)
  have c2: "2 \<in> blacklisted (failures 3 3 ?c)"
    by (intro failures_keeps_blacklisted b2)
  show "{1, 2, 3} \<subseteq> blacklisted pool_all_failed"
    unfolding p using c1 c2 b3 by blast
qed

text \<open>
  The acquire on that pool finds every key blacklisted, and hands out the second key of
  the list, the one under the cursor, not the first.
\<close>

theorem resume_from_start_counterexample:
  "set (api_keys pool_all_failed) \<subseteq> blacklisted pool_all_failed \<and>
   fst (the (get_next_client pool_all_failed)) = Inr 2 \<and>
   api_keys pool_all_failed ! 0 = 1"
proof -
  have h1: "api_keys pool_all_failed \<noteq> []" by (simp add: pool_all_failed_fields)
  have h2: "current_index pool_all_failed < length (api_keys pool_all_failed)"
    by (simp add: pool_all_failed_fields)
  have h3: "set (api_keys pool_all_failed) \<subseteq> dom (usage_count pool_all_failed)"
    by (simp add: pool_all_failed_fields zero_counts_def dom_def)
  have h4: "set (api_keys pool_all_failed) \<subseteq> clients pool_all_failed"
    by (simp add: pool_all_failed_fields)
  have h5: "set (api_keys pool_all_failed) \<subseteq> blacklisted pool_all_failed"
    using pool_all_failed_fields(5) by (simp add: pool_all_failed_fields(1))
  have h6: "distinct (api_keys pool_all_failed)" by (simp add: pool_all_failed_fields)
  from get_next_client_cursor[OF h1 h2 h3 h4 h5 h6]
  have "fst (the (get_next_client pool_all_failed)) = Inr 2"
    by (simp add: pool_all_failed_fields)
  with h5 show ?thesis by (simp add: pool_all_failed_fields)
qed

section \<open>Planning page ranges: \<open>_split_pdf_pages\<close> (cross\_validator.py)\<close>

text \<open>
  A page range is the pair \<open>(start_page, end_page)\<close>, both inclusive, pages counted from 1.
\<close>

type_synonym page_range = "int \<times> int"

text \<open>
  The loop \<open>for start_page in range(1, total_pages + 1, pages_per_chunk)\<close> with its body
  \<open>chunks.append((start_page, min(start_page + pages_per_chunk - 1, total_pages)))\<close>.
  A negative step makes the range empty; a zero step raises and is dealt with by the caller.
\<close>

function range_chunks :: "int \<Rightarrow> int \<Rightarrow> int \<Rightarrow> page_range list" where
  "range_chunks start_page total_pages pages_per_chunk =
     (if 0 < pages_per_chunk \<and> start_page \<le> total_pages
      then (start_page, min (start_page + pages_per_chunk - 1) total_pages)
             # range_chunks (start_page + pages_per_chunk) total_pages pages_per_chunk
      else [])"
  by pat_completeness auto
termination
  by (relation "measure (\<lambda>(s, t, c). nat (t + 1 - s))") auto

declare range_chunks.simps [simp del]

text \<open>\<open>sum(end - start + 1 for start, end in chunks)\<close>\<close>

definition covered_pages :: "page_range list \<Rightarrow> int" where
  "covered_pages chunks = (\<Sum>(start, end) \<leftarrow> chunks. end - start + 1)"

text \<open>
  \<open>_split_pdf_pages\<close>, as a function of the page count that \<open>_get_pdf_page_count\<close>
  returned (0 when the file could not be read) and of \<open>pages_per_chunk\<close>.  A chunk size of
  0 makes \<open>range\<close> raise \<open>ValueError\<close>, which the enclosing \<open>except\<close> turns into the empty
  list.  When the coverage check fails the ranges are generated a second time by the same
  rule.
\<close>

definition split_pdf_pages :: "int \<Rightarrow> int \<Rightarrow> page_range list" where
  "split_pdf_pages total_pages pages_per_chunk =
     (if total_pages \<le> 0 then []
      else if total_pages \<le> pages_per_chunk then [(1, total_pages)]
      else if pages_per_chunk = 0 then []
      else let chunks = range_chunks 1 total_pages pages_per_chunk
           in if covered_pages chunks \<noteq> total_pages
              then range_chunks 1 total_pages pages_per_chunk
              else chunks)"

text \<open>
  \<open>covers a b rs\<close>: the ranges of \<open>rs\<close> are non-empty, the first starts at page \<open>a\<close>, each
  next one starts on the page after the end of the one before, and the last ends at
  page \<open>b\<close>.
\<close>

fun covers :: "int \<Rightarrow> int \<Rightarrow> page_range list \<Rightarrow> bool" where
  "covers a b [] = (a = b + 1)"
| "covers a b ((s, e) # rs) = (s = a \<and> s \<le> e \<and> covers (e + 1) b rs)"

lemma range_chunks_covers:
  "0 < c \<Longrightarrow> s \<le> t + 1 \<Longrightarrow> covers s t (range_chunks s t c)"
proof (induction s t c rule: range_chunks.induct)
  case (1 s t c)
  show ?case
  proof (cases "s \<le> t")
    case True
    show ?thesis
    proof (cases "s + c - 1 \<le> t")
      case True
      with \<open>s \<le> t\<close> 1 show ?thesis
        by (subst range_chunks.simps) (simp add: min_def)
    next
      case False
      then have "range_chunks (s + c) t c = []"
        by (subst range_chunks.simps) simp
      with False \<open>s \<le> t\<close> 1(2) show ?thesis
        by (subst range_chunks.simps) (simp add: min_def)
    qed
  next
    case False
    with 1(3) have "s = t + 1" by simp
    then show ?thesis by (subst range_chunks.simps) simp
  qed
qed

lemma covers_sum: "covers a b rs \<Longrightarrow> covered_pages rs = b - a + 1"
  by (induction a b rs rule: covers.induct) (auto simp: covered_pages_def)

lemma covers_le: "covers a b rs \<Longrightarrow> a \<le> b + 1"
  by (induction a b rs rule: covers.induct) auto

lemma covers_bounds: "covers a b rs \<Longrightarrow> r \<in> set rs \<Longrightarrow> a \<le> fst r \<and> fst r \<le> snd r \<and> snd r \<le> b"
proof (induction a b rs rule: covers.induct)
  case (1 a b) then show ?case by simp
next
  case (2 a b s e rs)
  then have c: "covers (e + 1) b rs" and se: "s = a" "s \<le> e" by simp_all
  show ?case
  proof (cases "r = (s, e)")
    case True
    with se covers_le[OF c] show ?thesis by simp
  next
    case False
    with 2(3) have "r \<in> set rs" by simp
    from 2(1)[OF c this] se show ?thesis by simp
  qed
qed

lemma covers_disjoint: "covers a b rs \<Longrightarrow> sorted_wrt (\<lambda>r1 r2. snd r1 < fst r2) rs"
proof (induction a b rs rule: covers.induct)
  case (1 a b) show ?case by simp
next
  case (2 a b s e rs)
  then have c: "covers (e + 1) b rs" by simp
  have "\<forall>r \<in> set rs. e < fst r" using covers_bounds[OF c] by fastforce
  with 2 c show ?case by simp
qed

lemma covers_ascending: "covers a b rs \<Longrightarrow> sorted_wrt (<) (map fst rs)"
proof (induction a b rs rule: covers.induct)
  case (1 a b) show ?case by simp
next
  case (2 a b s e rs)
  then have c: "covers (e + 1) b rs" by simp
  have "\<forall>r \<in> set rs. s < fst r" using covers_bounds[OF c] 2(2) by fastforce
  with 2 c show ?case by simp
qed

text \<open>
  C2.  For a page count \<open>N\<close> and a chunk size \<open>C > 0\<close>: with \<open>N \<le> 0\<close> the partitioner
  returns the empty list; with \<open>0 < N \<le> C\<close> the single range \<open>(1, N)\<close>; with \<open>N > C\<close> ranges
  that are contiguous from page 1 to page \<open>N\<close>, pairwise non-overlapping, in strictly
  ascending start order, and whose page counts add up to \<open>N\<close>.
\<close>

theorem split_pdf_pages_partition:
  assumes "0 < C"
  shows "(N \<le> 0 \<longrightarrow> split_pdf_pages N C = []) \<and>
         (0 < N \<and> N \<le> C \<longrightarrow> split_pdf_pages N C = [(1, N)]) \<and>
         (C < N \<longrightarrow> covers 1 N (split_pdf_pages N C) \<and>
                  sorted_wrt (\<lambda>r1 r2. snd r1 < fst r2) (split_pdf_pages N C) \<and>
                  sorted_wrt (<) (map fst (split_pdf_pages N C)) \<and>
                  covered_pages (split_pdf_pages N C) = N)"
proof (intro conjI impI)
  assume "N \<le> 0" then show "split_pdf_pages N C = []" by (simp add: split_pdf_pages_def)
next
  assume "0 < N \<and> N \<le> C" then show "split_pdf_pages N C = [(1, N)]"
    by (simp add: split_pdf_pages_def)
next
  assume a: "C < N"
  with assms have eq: "split_pdf_pages N C = range_chunks 1 N C"
    by (simp add: split_pdf_pages_def Let_def)
  from a assms have cv: "covers 1 N (range_chunks 1 N C)"
    by (intro range_chunks_covers) simp_all
  show "covers 1 N (split_pdf_pages N C)" using cv eq by simp
  show "sorted_wrt (\<lambda>r1 r2. snd r1 < fst r2) (split_pdf_pages N C)"
    using covers_disjoint[OF cv] eq by simp
  show "sorted_wrt (<) (map fst (split_pdf_pages N C))"
    using covers_ascending[OF cv] eq by simp
  show "covered_pages (split_pdf_pages N C) = N"
    using covers_sum[OF cv] eq by simp
qed

theorem split_pdf_pages_partition_witness:
  "(0::int) < 5 \<and> (5::int) < 12 \<and> split_pdf_pages 12 5 = [(1,5),(6,10),(11,12)] \<and>
   covers 1 12 (split_pdf_pages 12 5) \<and> covered_pages (split_pdf_pages 12 5) = 12 \<and>
   split_pdf_pages 0 5 = [] \<and> split_pdf_pages 3 5 = [(1, 3)]"
proof -
  have h: "(0::int) < 5" by simp
  note t = split_pdf_pages_partition[OF h]
  have a: "covers 1 12 (split_pdf_pages 12 5) \<and> covered_pages (split_pdf_pages 12 5) = 12"
    using t[of 12] by simp
  have b: "split_pdf_pages 0 5 = []" using t[of 0] by simp
  have c: "split_pdf_pages 3 5 = [(1, 3)]" using t[of 3] by simp
  have d: "split_pdf_pages 12 5 = [(1,5),(6,10),(11,12)]"
    by (simp add: split_pdf_pages_def Let_def range_chunks.simps covered_pages_def)
  from a b c d show ?thesis by simp
qed

section \<open>Text helpers\<close>

text \<open>\<open>str(n)\<close> for a non-negative integer: its decimal digits (code points 48 to 57).\<close>

function dec_digits :: "nat \<Rightarrow> pystr" where
  "dec_digits n = (if n < 10 then [48 + n] else dec_digits (n div 10) @ [48 + n mod 10])"
  by pat_completeness auto
termination
  by (relation "measure id") auto

declare dec_digits.simps [simp del]

text \<open>\<open>str(i)\<close> for an integer; code point 45 is the minus sign.\<close>

definition str_int :: "int \<Rightarrow> pystr" where
  "str_int i = (if i < 0 then 45 # dec_digits (nat (- i)) else dec_digits (nat i))"

text \<open>
  The format specification \<open>{i:,}\<close>: the digits in groups of three from the right, with
  commas (code point 44) between the groups.  \<open>commas_rev\<close> works on the digits in reverse.
\<close>

fun commas_rev :: "pystr \<Rightarrow> pystr" where
  "commas_rev (a # b # c # d # ds) = a # b # c # 44 # commas_rev (d # ds)"
| "commas_rev ds = ds"

definition fmt_commas :: "int \<Rightarrow> pystr" where
  "fmt_commas i =
     (if i < 0 then 45 # rev (commas_rev (rev (dec_digits (nat (- i)))))
      else rev (commas_rev (rev (dec_digits (nat i)))))"

text \<open>
  Slices.  \<open>s[:k]\<close> keeps the first \<open>k\<close> items, or all but the last \<open>-k\<close> for a negative
  \<open>k\<close>; \<open>s[-k:]\<close> for \<open>k > 0\<close> keeps the last \<open>k\<close> items (all of them when there are fewer).
\<close>

definition slice_to :: "'a list \<Rightarrow> int \<Rightarrow> 'a list" where
  "slice_to s k = (if 0 \<le> k then take (nat k) s else take (length s - nat (- k)) s)"

definition slice_last :: "'a list \<Rightarrow> int \<Rightarrow> 'a list" where
  "slice_last s k = drop (length s - nat k) s"

text \<open>
  The characters for which \<open>str.isspace\<close> holds, and \<open>str.strip()\<close>, which removes them
  from both ends.
\<close>

definition py_isspace :: "nat \<Rightarrow> bool" where
  "py_isspace c \<longleftrightarrow>
     (9 \<le> c \<and> c \<le> 13) \<or> (28 \<le> c \<and> c \<le> 32) \<or> c = 133 \<or> c = 160 \<or> c = 5760 \<or>
     (8192 \<le> c \<and> c \<le> 8202) \<or> c = 8232 \<or> c = 8233 \<or> c = 8239 \<or> c = 8287 \<or> c = 12288"

definition py_strip :: "pystr \<Rightarrow> pystr" where
  "py_strip s = rev (dropWhile py_isspace (rev (dropWhile py_isspace s)))"

section \<open>Head and tail truncation: \<open>_smart_truncate_content\<close> (cross\_validator.py)\<close>

text \<open>
  The marker between the head and the tail: two newlines, \<open>[...\<close>, the four CJK characters
  of the source for "middle omitted", the omitted count with thousands separators, the
  three characters for "characters", \<open>...]\<close> and two newlines.
\<close>

definition omission_marker :: "int \<Rightarrow> pystr" where
  "omission_marker omitted_chars =
     [10, 10] @ asc ''[... '' @ [20013, 38388, 30465, 30053] @ asc '' '' @
     fmt_commas omitted_chars @
     asc '' '' @ [20010, 23383, 31526] @ asc '' ...]'' @ [10, 10]"

definition smart_truncate_content :: "pystr \<Rightarrow> int \<Rightarrow> int \<Rightarrow> int \<Rightarrow> pystr" where
  "smart_truncate_content content max_length head_size tail_size =
     (if content = [] \<or> int (length content) \<le> max_length then content
      else
        let omitted_chars = int (length content) - head_size - tail_size;
            head_part = slice_to content head_size;
            tail_part = (if tail_size > 0 then slice_last content tail_size else [])
        in head_part @ omission_marker omitted_chars @ tail_part)"

lemma length_commas_rev: "length (commas_rev ds) = length ds + (length ds - 1) div 3"
  by (induction ds rule: commas_rev.induct) auto

lemma length_dec_digits: "0 < k \<Longrightarrow> n < 10 ^ k \<Longrightarrow> length (dec_digits n) \<le> k"
proof (induction n arbitrary: k rule: dec_digits.induct)
  case (1 n)
  show ?case
  proof (cases "n < 10")
    case True
    then show ?thesis using 1(2) by (subst dec_digits.simps) simp
  next
    case False
    then obtain j where k: "k = Suc j" and j: "0 < j"
      using 1(2,3) by (cases k; cases "k - 1") auto
    from 1(3) k have "n div 10 < 10 ^ j" by (simp add: less_mult_imp_div_less mult.commute)
    from 1(1)[OF False j this] False k show ?thesis
      by (subst dec_digits.simps) simp
  qed
qed

lemma dec_digits_nonempty: "dec_digits n \<noteq> []"
  by (subst dec_digits.simps) simp

lemma length_fmt_commas:
  assumes "0 \<le> i" and "i < 2 ^ 63"
  shows "length (fmt_commas i) \<le> 25"
proof -
  have "nat i < 2 ^ 63" using assms by (simp add: nat_less_iff)
  also have "(2::nat) ^ 63 < 10 ^ 19" by simp
  finally have "length (dec_digits (nat i)) \<le> 19"
    by (intro length_dec_digits) simp_all
  then show ?thesis using assms(1)
    by (simp add: fmt_commas_def length_commas_rev)
qed

lemma length_omission_marker: "length (omission_marker i) = 23 + length (fmt_commas i)"
  by (simp add: omission_marker_def asc_def)

lemma smart_truncate_short:
  "int (length content) \<le> max_length \<Longrightarrow>
   smart_truncate_content content max_length head_size tail_size = content"
  by (simp add: smart_truncate_content_def)

lemma smart_truncate_long:
  assumes "0 \<le> head_size" and "0 \<le> tail_size"
    and "max_length < int (length content)" and ne: "content \<noteq> []"
  shows "smart_truncate_content content max_length head_size tail_size =
           take (nat head_size) content @
           omission_marker (int (length content) - head_size - tail_size) @
           drop (length content - nat tail_size) content"
proof -
  show ?thesis
  proof (cases "tail_size > 0")
    case True
    with assms ne show ?thesis
      by (simp add: smart_truncate_content_def slice_to_def slice_last_def Let_def)
  next
    case False
    with assms(2) have "tail_size = 0" by simp
    with assms ne show ?thesis
      by (simp add: smart_truncate_content_def slice_to_def slice_last_def Let_def)
  qed
qed

text \<open>
  C3 (as amended; the part on single extracted contents).  With non-negative head and tail
  sizes that leave room for the marker (\<open>head_size + tail_size + 48 \<le> max_length\<close>, as with
  the values 200000, 5000, 5000 used at every call), \<open>_smart_truncate_content\<close> returns a
  content within the cap unchanged, and turns a longer content (shorter than
  \<open>2 ^ 63\<close> characters, the interpreter's limit) into its first \<open>head_size\<close> characters,
  the marker that states the number of omitted characters, and its last \<open>tail_size\<close>
  characters; the result is never longer than the cap.
\<close>

theorem smart_truncate_head_tail:
  assumes "0 \<le> head_size" and "0 \<le> tail_size"
    and "head_size + tail_size + 48 \<le> max_length"
  shows "(int (length content) \<le> max_length \<longrightarrow>
            smart_truncate_content content max_length head_size tail_size = content) \<and>
         (max_length < int (length content) \<and> length content < 2 ^ 63 \<longrightarrow>
            smart_truncate_content content max_length head_size tail_size =
              take (nat head_size) content @
              omission_marker (int (length content) - head_size - tail_size) @
              drop (length content - nat tail_size) content \<and>
            int (length (smart_truncate_content content max_length head_size tail_size))
              \<le> max_length)"
proof (intro conjI impI)
  assume "int (length content) \<le> max_length"
  then show "smart_truncate_content content max_length head_size tail_size = content"
    by (rule smart_truncate_short)
next
  assume a: "max_length < int (length content) \<and> length content < 2 ^ 63"
  let ?om = "int (length content) - head_size - tail_size"
  from a have long: "max_length < int (length content)" by simp
  show eq: "smart_truncate_content content max_length head_size tail_size =
              take (nat head_size) content @ omission_marker ?om @
              drop (length content - nat tail_size) content"
  proof (rule smart_truncate_long[OF assms(1,2) long])
    show "content \<noteq> []" using long assms by auto
  qed
  have om0: "0 \<le> ?om" using assms long by simp
  have "?om \<le> int (length content)" using assms by simp
  also have "\<dots> < 2 ^ 63" using a by (simp add: nat_less_iff flip: of_nat_less_iff)
  finally have om1: "?om < 2 ^ 63" .
  have m: "length (omission_marker ?om) \<le> 48"
    using length_fmt_commas[OF om0 om1] by (simp add: length_omission_marker)
  have "int (length (take (nat head_size) content @ omission_marker ?om @
              drop (length content - nat tail_size) content))
        \<le> head_size + 48 + tail_size"
    using m assms(1,2) by (simp add: min_def) linarith
  with assms(3) show "int (length (smart_truncate_content content max_length head_size tail_size))
              \<le> max_length"
    unfolding eq by linarith
qed

theorem smart_truncate_head_tail_witness:
  "(0::int) \<le> 5000 \<and> (5000::int) + 5000 + 48 \<le> 200000 \<and>
   (200000::int) < int (length (replicate 200001 (97::nat))) \<and>
   length (replicate 200001 (97::nat)) < 2 ^ 63 \<and>
   smart_truncate_content (replicate 200001 97) 200000 5000 5000 =
     replicate 5000 97 @ omission_marker 190001 @ replicate 5000 97 \<and>
   int (length (smart_truncate_content (replicate 200001 97) 200000 5000 5000)) \<le> 200000"
proof -
  have h1: "(0::int) \<le> 5000" by simp
  have h3: "(5000::int) + 5000 + 48 \<le> 200000" by simp
  have h4: "(200000::int) < int (length (replicate 200001 (97::nat))) \<and>
            length (replicate 200001 (97::nat)) < 2 ^ 63" by simp
  from smart_truncate_head_tail[OF h1 h1 h3, of "replicate 200001 97"] h4
  have "smart_truncate_content (replicate 200001 97) 200000 5000 5000 =
          take (nat 5000) (replicate 200001 97) @
          omission_marker (int (length (replicate 200001 (97::nat))) - 5000 - 5000) @
          drop (length (replicate 200001 (97::nat)) - nat 5000) (replicate 200001 97) \<and>
        int (length (smart_truncate_content (replicate 200001 97) 200000 5000 5000)) \<le> 200000"
    by blast
  then have a: "smart_truncate_content (replicate 200001 97) 200000 5000 5000 =
          take (nat 5000) (replicate 200001 97) @
          omission_marker (int (length (replicate 200001 (97::nat))) - 5000 - 5000) @
          drop (length (replicate 200001 (97::nat)) - nat 5000) (replicate 200001 97)"
    and b: "int (length (smart_truncate_content (replicate 200001 97) 200000 5000 5000)) \<le> 200000"
    by blast+
  have "take (nat 5000) (replicate 200001 97) @
          omission_marker (int (length (replicate 200001 (97::nat))) - 5000 - 5000) @
          drop (length (replicate 200001 (97::nat)) - nat 5000) (replicate 200001 97) =
        replicate 5000 (97::nat) @ omission_marker 190001 @ replicate 5000 97"
    by simp
  with a have c: "smart_truncate_content (replicate 200001 97) 200000 5000 5000 =
     replicate 5000 97 @ omission_marker 190001 @ replicate 5000 97" by (rule trans)
  from c b have "smart_truncate_content (replicate 200001 97) 200000 5000 5000 =
     replicate 5000 97 @ omission_marker 190001 @ replicate 5000 97 \<and>
   int (length (smart_truncate_content (replicate 200001 97) 200000 5000 5000)) \<le> 200000"
    by (rule conjI)
  with h1 h3 h4 show ?thesis by blast
qed

section \<open>Retrying an external call: \<open>_rotated_api_call\<close> (cross\_validator.py)\<close>

text \<open>
  The external call is a parameter: \<open>call_func attempt key\<close> is what \<open>call_func(client)\<close>
  does on the given attempt with the client of the given key, an exception or a result.
  The waiting between attempts and the log lines are left out; they change neither the
  pool nor the outcome.
\<close>

text \<open>
  The \<open>except\<close> branch asks the pool for a key once more and reports the error against
  that key; whatever goes wrong there is swallowed.
\<close>

definition note_failure :: "'k rotator \<Rightarrow> 'k rotator option" where
  "note_failure s =
     (case get_next_client s of
        None \<Rightarrow> None
      | Some (Inl e, s1) \<Rightarrow> Some s1
      | Some (Inr current_api_key, s1) \<Rightarrow> Some (snd (report_error s1 current_api_key)))"

text \<open>The message of the exception raised when no attempt recorded an exception.\<close>

definition retries_exhausted :: "int \<Rightarrow> pystr" where
  "retries_exhausted max_retries =
     asc ''API'' @ [35843, 29992, 22833, 36133, 65292, 24050, 37325, 35797] @
     str_int max_retries @ [27425]"

text \<open>
  The \<open>for attempt in range(max_retries)\<close> loop with \<open>remaining\<close> iterations to go,
  followed by the final \<open>raise\<close>.  The last component counts the calls of \<open>call_func\<close>.
\<close>

fun rotated_attempts ::
  "(nat \<Rightarrow> 'k \<Rightarrow> exn + 'r) \<Rightarrow> int \<Rightarrow> nat \<Rightarrow> nat \<Rightarrow> exn option \<Rightarrow> 'k rotator \<Rightarrow> nat \<Rightarrow>
   ((exn + 'r) \<times> 'k rotator \<times> nat) option" where
  "rotated_attempts call_func max_retries 0 attempt last_exception s calls =
     Some (Inl (case last_exception of
                  Some e \<Rightarrow> e
                | None \<Rightarrow> Failure (retries_exhausted max_retries)), s, calls)"
| "rotated_attempts call_func max_retries (Suc remaining) attempt last_exception s calls =
     (case get_next_client s of
        None \<Rightarrow> None
      | Some (Inl e, s1) \<Rightarrow>
          (case note_failure s1 of
             None \<Rightarrow> None
           | Some s2 \<Rightarrow>
               rotated_attempts call_func max_retries remaining (attempt + 1) (Some e) s2 calls)
      | Some (Inr api_key, s1) \<Rightarrow>
          (case call_func attempt api_key of
             Inl e \<Rightarrow>
               (case note_failure s1 of
                  None \<Rightarrow> None
                | Some s2 \<Rightarrow>
                    rotated_attempts call_func max_retries remaining (attempt + 1) (Some e) s2
                      (calls + 1))
           | Inr result \<Rightarrow>
               (case report_success s1 api_key of
                  (Inl e, s2) \<Rightarrow>
                    (case note_failure s2 of
                       None \<Rightarrow> None
                     | Some s3 \<Rightarrow>
                         rotated_attempts call_func max_retries remaining (attempt + 1) (Some e) s3
                           (calls + 1))
                | (Inr u, s2) \<Rightarrow> Some (Inr result, s2, calls + 1))))"

definition rotated_api_call ::
  "(nat \<Rightarrow> 'k \<Rightarrow> exn + 'r) \<Rightarrow> int \<Rightarrow> 'k rotator \<Rightarrow> ((exn + 'r) \<times> 'k rotator \<times> nat) option" where
  "rotated_api_call call_func max_retries s =
     rotated_attempts call_func max_retries (nat max_retries) 0 None s 0"

section \<open>One page range: \<open>_extract_single_page_range\<close> (cross\_validator.py)\<close>

text \<open>
  \<open>[\<close>, the character for "number", the two page numbers with a hyphen, the characters for
  "pages: processing failed", a full-width colon, the message, \<open>]\<close>.
\<close>

definition failure_marker :: "int \<Rightarrow> int \<Rightarrow> pystr \<Rightarrow> pystr" where
  "failure_marker start_page end_page msg =
     asc ''['' @ [31532] @ str_int start_page @ asc ''-'' @ str_int end_page @
     [39029, 22788, 29702, 22833, 36133, 65306] @ msg @ asc '']''"

text \<open>The message "empty content returned" of the source.\<close>

definition empty_content_msg :: pystr where
  "empty_content_msg = [36820, 22238, 31354, 20869, 23481]"

text \<open>
  The result of a successful call is the \<open>text\<close> of the response, \<open>None\<close> when there is
  none.  \<open>page_range_body\<close> is the body of the \<open>try\<close>; \<open>cache_manager.set\<close> in it catches
  every exception of its own.
\<close>

definition page_range_body ::
  "(nat \<Rightarrow> 'k \<Rightarrow> exn + pystr option) \<Rightarrow> 'k rotator \<Rightarrow> int \<Rightarrow> int \<Rightarrow>
   ((exn + pystr) \<times> 'k rotator) option" where
  "page_range_body call_func s start_page end_page =
     (case rotated_api_call call_func 2 s of
        None \<Rightarrow> None
      | Some (Inl e, s1, calls) \<Rightarrow> Some (Inl e, s1)
      | Some (Inr response_text, s1, calls) \<Rightarrow>
          (case response_text of
             None \<Rightarrow> Some (Inr (failure_marker start_page end_page empty_content_msg), s1)
           | Some text \<Rightarrow>
               if text \<noteq> [] \<and> py_strip text \<noteq> []
               then let content = py_strip text
                    in Some (Inr (if length content > 200000
                                  then smart_truncate_content content 200000 5000 5000
                                  else content), s1)
               else Some (Inr (failure_marker start_page end_page empty_content_msg), s1)))"

text \<open>
  \<open>str.encode()\<close> encodes as UTF-8 and raises \<open>UnicodeEncodeError\<close> when the string holds a
  surrogate code point (U+D800 to U+DFFF), as a path does whose bytes the file system
  could not decode.
\<close>

definition encode_raises :: "pystr \<Rightarrow> bool" where
  "encode_raises s \<longleftrightarrow> (\<exists>c \<in> set s. 55296 \<le> c \<and> c \<le> 57343)"

text \<open>\<open>f"pages_{start_page}_{end_page}_file_{file_hash}"\<close>\<close>

definition page_cache_prefix :: "int \<Rightarrow> int \<Rightarrow> pystr \<Rightarrow> pystr" where
  "page_cache_prefix start_page end_page file_hash =
     asc ''pages_'' @ str_int start_page @ asc ''_'' @ str_int end_page @ asc ''_file_'' @
     file_hash"

text \<open>
  The whole function.  \<open>path_digest\<close> is \<open>hashlib.md5(...).hexdigest()\<close> of the encoded path,
  \<open>cache_lookup\<close> is what \<open>cache_manager.get\<close> returns (it catches every exception of its
  own), and \<open>str_of e\<close> is \<open>str(e)\<close>.  The path is encoded in front of the \<open>try\<close>, so
  the exception of \<open>encode\<close> leaves the function; the \<open>except Exception\<close> around
  \<open>page_range_body\<close> turns every exception of the rotated call into a marker.
\<close>

definition extract_single_page_range ::
  "(exn \<Rightarrow> pystr) \<Rightarrow> (pystr \<Rightarrow> pystr) \<Rightarrow> (pystr \<Rightarrow> pystr \<Rightarrow> pystr option) \<Rightarrow> pystr \<Rightarrow>
   (nat \<Rightarrow> 'k \<Rightarrow> exn + pystr option) \<Rightarrow> 'k rotator \<Rightarrow> int \<Rightarrow> int \<Rightarrow>
   ((exn + pystr) \<times> 'k rotator) option" where
  "extract_single_page_range str_of path_digest cache_lookup pdf_path call_func s
       start_page end_page =
     (if encode_raises pdf_path then Some (Inl UnicodeEncodeError, s)
      else
        let file_hash = take 8 (path_digest pdf_path);
            cache_prefix = page_cache_prefix start_page end_page file_hash;
            cached_content = cache_lookup pdf_path cache_prefix
        in if cached_content \<noteq> None \<and> cached_content \<noteq> Some []
           then Some (Inr (the cached_content), s)
           else
             (case page_range_body call_func s start_page end_page of
                None \<Rightarrow> None
              | Some (Inl e, s1) \<Rightarrow>
                  Some (Inr (failure_marker start_page end_page (take 100 (str_of e))), s1)
              | Some (Inr content, s1) \<Rightarrow> Some (Inr content, s1)))"

subsection \<open>The retry ceiling\<close>

text \<open>
  The rotation cursor points into the key list (or the list is empty); this is all the
  \<open>while\<close> loop of \<open>get_next_client\<close> needs to end.
\<close>

definition cursor_ok :: "'k rotator \<Rightarrow> bool" where
  "cursor_ok s \<longleftrightarrow> api_keys s = [] \<or> current_index s < length (api_keys s)"

lemma hand_out_frame:
  "api_keys (snd (hand_out s k)) = api_keys s"
  "current_index (snd (hand_out s k)) = current_index s"
  by (simp_all add: hand_out_def Let_def split: option.splits)

lemma get_next_client_total:
  assumes "cursor_ok s"
  shows "\<exists>r s'. get_next_client s = Some (r, s') \<and> cursor_ok s'"
proof (cases "api_keys s = []")
  case True
  then show ?thesis using assms by (simp add: get_next_client_def)
next
  case False
  with assms have cur: "current_index s < length (api_keys s)" by (simp add: cursor_ok_def)
  let ?av = "available_keys s" and ?s1 = "after_reset s"
  let ?n = "length (api_keys s)"
  have av_ne: "?av \<noteq> []" using False by (simp add: available_keys_def)
  have s1: "api_keys ?s1 = api_keys s" "current_index ?s1 = current_index s"
    by (simp_all add: after_reset_def)
  have ok1: "cursor_ok ?s1" using assms s1 by (simp add: cursor_ok_def)
  show ?thesis
  proof (cases "length ?av = 1")
    case True
    have "get_next_client s = Some (hand_out ?s1 (?av ! 0))"
      using False True by (simp add: get_next_client_def available_keys_def after_reset_def Let_def)
    moreover have "cursor_ok (snd (hand_out ?s1 (?av ! 0)))"
      using ok1 by (simp add: cursor_ok_def hand_out_frame)
    ultimately show ?thesis by (metis prod.collapse)
  next
    case len: False
    let ?ix = "map (index_of (api_keys s)) ?av"
    have ixne: "?ix \<noteq> []" using av_ne by simp
    have npos: "0 < ?n" using False by simp
    have "(current_index s + 0) mod ?n = current_index s" using cur by simp
    with find_next_returns[OF cur npos ixne] obtain i where
      i: "find_next ?ix ?n (current_index s) (current_index s) = Some (Inr i)"
      by metis
    let ?s2 = "?s1\<lparr>current_index := (i + 1) mod ?n\<rparr>"
    have ok2: "cursor_ok ?s2" using npos s1 by (simp add: cursor_ok_def)
    show ?thesis
    proof (cases "i < ?n")
      case True
      have "get_next_client s = Some (hand_out ?s2 (api_keys s ! i))"
        using False len i True
        by (simp add: get_next_client_def available_keys_def after_reset_def Let_def)
      moreover have "cursor_ok (snd (hand_out ?s2 (api_keys s ! i)))"
        using ok2 by (simp add: cursor_ok_def hand_out_frame)
      ultimately show ?thesis by (metis prod.collapse)
    next
      case nlt: False
      have "get_next_client s = Some (Inl IndexError, ?s1)"
        using False len i nlt
        by (simp add: get_next_client_def available_keys_def after_reset_def Let_def)
      with ok1 show ?thesis by blast
    qed
  qed
qed

lemma report_error_cursor: "cursor_ok s \<Longrightarrow> cursor_ok (snd (report_error s k))"
  by (simp add: cursor_ok_def report_error_frame)

lemma report_success_cursor: "cursor_ok s \<Longrightarrow> cursor_ok (snd (report_success s k))"
  by (auto simp add: cursor_ok_def report_success_def Let_def split: option.splits)

lemma note_failure_total:
  assumes "cursor_ok s"
  shows "\<exists>s'. note_failure s = Some s' \<and> cursor_ok s'"
proof -
  from get_next_client_total[OF assms] obtain r s1 where
    g: "get_next_client s = Some (r, s1)" and ok: "cursor_ok s1" by blast
  show ?thesis
  proof (cases r)
    case (Inl e)
    with g ok show ?thesis by (simp add: note_failure_def)
  next
    case (Inr k)
    with g report_error_cursor[OF ok, of k] show ?thesis by (simp add: note_failure_def)
  qed
qed

lemma rotated_attempts_total:
  assumes "cursor_ok s"
  shows "\<exists>r s' c. rotated_attempts call_func m remaining attempt le s calls = Some (r, s', c) \<and>
           c \<le> calls + remaining \<and> cursor_ok s' \<and>
           ((\<forall>a k. isl (call_func a k)) \<longrightarrow> isl r)"
  using assms
proof (induction remaining arbitrary: attempt le s calls)
  case 0
  then show ?case by simp
next
  case (Suc remaining)
  from get_next_client_total[OF Suc.prems] obtain r1 s1 where
    g: "get_next_client s = Some (r1, s1)" and ok1: "cursor_ok s1" by blast
  from note_failure_total[OF ok1] obtain s2 where
    n1: "note_failure s1 = Some s2" and ok2: "cursor_ok s2" by blast
  show ?case
  proof (cases r1)
    case (Inl e)
    from Suc.IH[OF ok2, of "attempt + 1" "Some e" calls] obtain r s' c where
      "rotated_attempts call_func m remaining (attempt + 1) (Some e) s2 calls = Some (r, s', c)"
      "c \<le> calls + remaining" "cursor_ok s'" "(\<forall>a k. isl (call_func a k)) \<longrightarrow> isl r"
      by blast
    with g Inl n1 show ?thesis by simp
  next
    case (Inr key)
    show ?thesis
    proof (cases "call_func attempt key")
      case (Inl e)
      from Suc.IH[OF ok2, of "attempt + 1" "Some e" "calls + 1"] obtain r s' c where
        "rotated_attempts call_func m remaining (attempt + 1) (Some e) s2 (calls + 1)
           = Some (r, s', c)"
        "c \<le> calls + 1 + remaining" "cursor_ok s'" "(\<forall>a k. isl (call_func a k)) \<longrightarrow> isl r"
        by blast
      with g Inr Inl n1 show ?thesis by simp
    next
      case res: (Inr result)
      obtain x s3 where rs: "report_success s1 key = (x, s3)" by (cases "report_success s1 key")
      have ok3: "cursor_ok s3" using report_success_cursor[OF ok1, of key] rs by simp
      have nf: "\<not> (\<forall>a k. isl (call_func a k))" using res by (metis sum.disc(2))
      show ?thesis
      proof (cases x)
        case (Inl e)
        from note_failure_total[OF ok3] obtain s4 where
          n3: "note_failure s3 = Some s4" and ok4: "cursor_ok s4" by blast
        from Suc.IH[OF ok4, of "attempt + 1" "Some e" "calls + 1"] obtain r s' c where
          "rotated_attempts call_func m remaining (attempt + 1) (Some e) s4 (calls + 1)
             = Some (r, s', c)"
          "c \<le> calls + 1 + remaining" "cursor_ok s'" by blast
        with g Inr res rs Inl n3 nf show ?thesis by auto
      next
        case (Inr u)
        with g \<open>r1 = Inr key\<close> res rs ok3 nf show ?thesis by auto
      qed
    qed
  qed
qed

lemma page_range_body_total:
  assumes "cursor_ok s"
  shows "\<exists>r s'. page_range_body call_func s start_page end_page = Some (r, s') \<and>
           ((\<forall>a k. isl (call_func a k)) \<longrightarrow>
              (\<exists>e calls. r = Inl e \<and> rotated_api_call call_func 2 s = Some (Inl e, s', calls) \<and>
                         calls \<le> 2))"
proof -
  from rotated_attempts_total[OF assms, of call_func 2 "nat 2" 0 None 0] obtain r s' c where
    r: "rotated_api_call call_func 2 s = Some (r, s', c)" "c \<le> 0 + nat 2"
       "(\<forall>a k. isl (call_func a k)) \<longrightarrow> isl r"
    unfolding rotated_api_call_def by blast
  show ?thesis
  proof (cases r)
    case (Inl e)
    with r show ?thesis by (simp add: page_range_body_def)
  next
    case (Inr response_text)
    with r(3) have "\<not> (\<forall>a k. isl (call_func a k))" by auto
    with r(1) Inr show ?thesis
      by (auto simp add: page_range_body_def Let_def split: option.splits)
  qed
qed

text \<open>
  C9.  On a pool whose cursor points into the key list, the rotated call returns after at
  most \<open>max_retries\<close> calls of the external function (none for a negative ceiling), and
  when every call fails it ends by raising.  The page-range extraction returns: with
  \<open>UnicodeEncodeError\<close>, the pool untouched and no call made, when the path cannot be
  encoded, and with a string otherwise.  When the path can be encoded, the cache has no
  content for the range and every external call fails, the rotated call (with its ceiling
  of 2) has raised an exception after at most 2 calls, and the extraction returns the
  failure marker, for the page range, around the first 100 characters of that exception's
  message.
\<close>

theorem retry_ceiling:
  assumes "cursor_ok s"
  shows "(\<exists>r s' calls. rotated_api_call call_func max_retries s = Some (r, s', calls) \<and>
            int calls \<le> max 0 max_retries \<and> ((\<forall>a k. isl (call_func a k)) \<longrightarrow> isl r)) \<and>
         (\<exists>r s'. extract_single_page_range str_of path_digest cache_lookup pdf_path page_call s
                    start_page end_page = Some (r, s') \<and>
                  (encode_raises pdf_path \<longrightarrow> r = Inl UnicodeEncodeError \<and> s' = s) \<and>
                  (\<not> encode_raises pdf_path \<longrightarrow> (\<exists>text. r = Inr text))) \<and>
         (\<not> encode_raises pdf_path \<and>
          cache_lookup pdf_path
            (page_cache_prefix start_page end_page (take 8 (path_digest pdf_path))) \<in> {None, Some []} \<and>
          (\<forall>a k. isl (page_call a k)) \<longrightarrow>
            (\<exists>e s' calls.
               rotated_api_call page_call 2 s = Some (Inl e, s', calls) \<and> calls \<le> 2 \<and>
               extract_single_page_range str_of path_digest cache_lookup pdf_path page_call s
                 start_page end_page
                 = Some (Inr (failure_marker start_page end_page (take 100 (str_of e))), s')))"
proof (intro conjI impI)
  from rotated_attempts_total[OF assms, of call_func max_retries "nat max_retries" 0 None 0]
  obtain r s' c where
    "rotated_api_call call_func max_retries s = Some (r, s', c)" "c \<le> 0 + nat max_retries"
    "(\<forall>a k. isl (call_func a k)) \<longrightarrow> isl r"
    unfolding rotated_api_call_def by blast
  moreover from this have "int c \<le> max 0 max_retries" by simp
  ultimately show "\<exists>r s' calls. rotated_api_call call_func max_retries s = Some (r, s', calls) \<and>
            int calls \<le> max 0 max_retries \<and> ((\<forall>a k. isl (call_func a k)) \<longrightarrow> isl r)" by blast
next
  from page_range_body_total[OF assms, of page_call start_page end_page] obtain r s' where
    b: "page_range_body page_call s start_page end_page = Some (r, s')" by blast
  show "\<exists>r s'. extract_single_page_range str_of path_digest cache_lookup pdf_path page_call s
                    start_page end_page = Some (r, s') \<and>
                  (encode_raises pdf_path \<longrightarrow> r = Inl UnicodeEncodeError \<and> s' = s) \<and>
                  (\<not> encode_raises pdf_path \<longrightarrow> (\<exists>text. r = Inr text))"
    using b by (cases r) (auto simp add: extract_single_page_range_def Let_def)
next
  assume h: "\<not> encode_raises pdf_path \<and>
          cache_lookup pdf_path
            (page_cache_prefix start_page end_page (take 8 (path_digest pdf_path))) \<in> {None, Some []} \<and>
          (\<forall>a k. isl (page_call a k))"
  with page_range_body_total[OF assms, of page_call start_page end_page] obtain e s' calls where
    b: "page_range_body page_call s start_page end_page = Some (Inl e, s')"
       "rotated_api_call page_call 2 s = Some (Inl e, s', calls)" "calls \<le> 2"
    by blast
  have "extract_single_page_range str_of path_digest cache_lookup pdf_path page_call s
                 start_page end_page
                 = Some (Inr (failure_marker start_page end_page (take 100 (str_of e))), s')"
    using h b(1) by (auto simp add: extract_single_page_range_def Let_def)
  with b(2,3) show "\<exists>e s' calls.
               rotated_api_call page_call 2 s = Some (Inl e, s', calls) \<and> calls \<le> 2 \<and>
               extract_single_page_range str_of path_digest cache_lookup pdf_path page_call s
                 start_page end_page
                 = Some (Inr (failure_marker start_page end_page (take 100 (str_of e))), s')"
    by blast
qed

text \<open>
  A pool of two keys and an external call that always fails: for the path \<open>a.pdf\<close> and an
  empty cache the extraction returns the failure marker; for a path with the surrogate
  U+DC80 it raises.
\<close>

theorem retry_ceiling_witness:
  "cursor_ok (rotator_init [1::nat, 2] (\<lambda>_. True)) \<and>
   (\<exists>r s' calls.
      rotated_api_call (\<lambda>a k. Inl ValueError :: exn + pystr option) 3
        (rotator_init [1::nat, 2] (\<lambda>_. True)) = Some (r, s', calls) \<and> int calls \<le> 3 \<and> isl r) \<and>
   \<not> encode_raises (asc ''a.pdf'') \<and>
   (\<exists>s'. extract_single_page_range (\<lambda>e. asc ''boom'') (\<lambda>p. p) (\<lambda>p k. None) (asc ''a.pdf'')
            (\<lambda>a k. Inl ValueError) (rotator_init [1::nat, 2] (\<lambda>_. True)) 1 5
          = Some (Inr (failure_marker 1 5 (asc ''boom'')), s')) \<and>
   encode_raises [97, 56448] \<and>
   extract_single_page_range (\<lambda>e. asc ''boom'') (\<lambda>p. p) (\<lambda>p k. None) [97, 56448]
     (\<lambda>a k. Inl ValueError) (rotator_init [1::nat, 2] (\<lambda>_. True)) 1 5
     = Some (Inl UnicodeEncodeError, rotator_init [1::nat, 2] (\<lambda>_. True))"
proof -
  let ?s = "rotator_init [1::nat, 2] (\<lambda>_. True)"
  let ?f = "\<lambda>(a::nat) (k::nat). Inl ValueError :: exn + pystr option"
  let ?str = "\<lambda>e::exn. asc ''boom''"
  let ?dig = "\<lambda>p::pystr. p" and ?cache = "\<lambda>(p::pystr) (k::pystr). None :: pystr option"
  have h: "cursor_ok ?s" by (simp add: cursor_ok_def rotator_init_def)
  have fails: "\<forall>a k. isl (?f a k)" by simp
  have ok: "\<not> encode_raises (asc ''a.pdf'')" by (simp add: encode_raises_def asc_def)
  have bad: "encode_raises [97, 56448]" by (simp add: encode_raises_def)
  note t = retry_ceiling[where s="?s" and call_func="?f" and max_retries=3 and str_of="?str"
      and path_digest="?dig" and cache_lookup="?cache" and pdf_path="asc ''a.pdf''"
      and page_call="?f" and start_page=1 and end_page=5, OF h]
  note u = retry_ceiling[where s="?s" and call_func="?f" and max_retries=3 and str_of="?str"
      and path_digest="?dig" and cache_lookup="?cache" and pdf_path="[97, 56448]"
      and page_call="?f" and start_page=1 and end_page=5, OF h]
  have a: "\<exists>r s' calls. rotated_api_call ?f 3 ?s = Some (r, s', calls) \<and> int calls \<le> 3 \<and> isl r"
    using t fails by simp
  have len: "take 100 (asc ''boom'') = asc ''boom''" by (simp add: asc_def)
  have "\<exists>e s' calls.
          rotated_api_call ?f 2 ?s = Some (Inl e, s', calls) \<and> calls \<le> 2 \<and>
          extract_single_page_range ?str ?dig ?cache (asc ''a.pdf'') ?f ?s 1 5
            = Some (Inr (failure_marker 1 5 (take 100 (asc ''boom''))), s')"
    using t ok by simp
  then have b: "\<exists>s'. extract_single_page_range ?str ?dig ?cache (asc ''a.pdf'') ?f ?s 1 5
            = Some (Inr (failure_marker 1 5 (asc ''boom'')), s')"
    unfolding len by blast
  have c: "extract_single_page_range ?str ?dig ?cache [97, 56448] ?f ?s 1 5
            = Some (Inl UnicodeEncodeError, ?s)"
    using u bad by auto
  from h a ok b bad c show ?thesis by (intro conjI)
qed

section \<open>Cleaning a range's content: \<open>_clean_page_content\<close> (cross\_validator.py)\<close>

text \<open>
  The character class \<open>\\d\<close> of a \<open>str\<close> pattern: the decimal digits of Unicode 14, the
  character database of the interpreter (3.11) the code runs on.  They come in runs of
  ten, listed by first code point, and the fifty mathematical digits.  \<open>\\s\<close> is
  \<open>py_isspace\<close>.
\<close>

definition decimal_starts :: "nat list" where
  "decimal_starts =
     [48, 1632, 1776, 1984, 2406, 2534, 2662, 2790, 2918, 3046, 3174, 3302, 3430, 3558,
      3664, 3792, 3872, 4160, 4240, 6112, 6160, 6470, 6608, 6784, 6800, 6992, 7088,
      7232, 7248, 42528, 43216, 43264, 43472, 43504, 43600, 44016, 65296, 66720, 68912,
      69734, 69872, 69942, 70096, 70384, 70736, 70864, 71248, 71360, 71472, 71904,
      72016, 72784, 73040, 73120, 92768, 92864, 93008, 123200, 123632, 125264, 130032]"

definition py_isdecimal :: "nat \<Rightarrow> bool" where
  "py_isdecimal c \<longleftrightarrow>
     (\<exists>b \<in> set decimal_starts. b \<le> c \<and> c < b + 10) \<or> (120782 \<le> c \<and> c \<le> 120831)"

text \<open>
  Matching at the start of a string; the result is the rest after the match.  \<open>eat c\<close>
  matches the one character \<open>c\<close> and \<open>eat_digits\<close> matches \<open>\\d+\<close>.  In the pattern every
  repetition is followed by a character outside the repeated class, so the longest run
  is the only candidate and no backtracking is involved.
\<close>

definition eat :: "nat \<Rightarrow> pystr \<Rightarrow> pystr option" where
  "eat c s = (case s of [] \<Rightarrow> None | x # rest \<Rightarrow> if x = c then Some rest else None)"

definition eat_digits :: "pystr \<Rightarrow> pystr option" where
  "eat_digits s =
     (if takeWhile py_isdecimal s = [] then None else Some (dropWhile py_isdecimal s))"

text \<open>The pattern \<open>\\[N\\d+-\\d+P\\]\<close>, with N and P the characters for "number" and "page".\<close>

definition match_tag :: "pystr \<Rightarrow> pystr option" where
  "match_tag s =
     Option.bind (eat 91 s) (\<lambda>s1. Option.bind (eat 31532 s1) (\<lambda>s2.
     Option.bind (eat_digits s2) (\<lambda>s3. Option.bind (eat 45 s3) (\<lambda>s4.
     Option.bind (eat_digits s4) (\<lambda>s5. Option.bind (eat 39029 s5) (\<lambda>s6.
     eat 93 s6))))))"

text \<open>Two such tags with \<open>\\s*\<close> between them.\<close>

definition match_double :: "pystr \<Rightarrow> pystr option" where
  "match_double s = Option.bind (match_tag s) (\<lambda>rest. match_tag (dropWhile py_isspace rest))"

lemma eat_shorter: "eat c s = Some rest \<Longrightarrow> length rest < length s"
  by (auto simp: eat_def split: list.splits if_splits)

lemma eat_digits_shorter: "eat_digits s = Some rest \<Longrightarrow> length rest \<le> length s"
  by (auto simp: eat_digits_def length_dropWhile_le split: if_splits)

lemma match_tag_shorter: "match_tag s = Some rest \<Longrightarrow> length rest < length s"
  unfolding match_tag_def
  by (auto simp: bind_eq_Some_conv dest!: eat_shorter eat_digits_shorter)

lemma match_double_shorter: "match_double s = Some rest \<Longrightarrow> length rest < length s"
proof -
  assume "match_double s = Some rest"
  then obtain r where r: "match_tag s = Some r" "match_tag (dropWhile py_isspace r) = Some rest"
    by (auto simp: match_double_def bind_eq_Some_conv)
  from match_tag_shorter[OF r(2)] have "length rest < length r"
    using length_dropWhile_le[of py_isspace r] by linarith
  with match_tag_shorter[OF r(1)] show ?thesis by linarith
qed

text \<open>
  \<open>re.sub\<close> with the double-tag pattern: the leftmost match is replaced and the search
  goes on behind it.
\<close>

function sub_tags :: "pystr \<Rightarrow> pystr \<Rightarrow> pystr" where
  "sub_tags repl [] = []"
| "sub_tags repl (c # cs) =
     (case match_double (c # cs) of
        Some rest \<Rightarrow> repl @ sub_tags repl rest
      | None \<Rightarrow> c # sub_tags repl cs)"
  by pat_completeness auto
termination
  by (relation "measure (\<lambda>(repl, s). length s)") (auto dest: match_double_shorter)

text \<open>
  \<open>re.sub\<close> with \<open>\\n{4,}\<close>: a run of four or more newlines becomes three newlines, a
  shorter run stays.
\<close>

function collapse_newlines :: "pystr \<Rightarrow> pystr" where
  "collapse_newlines [] = []"
| "collapse_newlines (c # cs) =
     (if c = 10
      then (if length (takeWhile (\<lambda>x. x = 10) (c # cs)) \<ge> 4 then [10, 10, 10]
            else takeWhile (\<lambda>x. x = 10) (c # cs))
           @ collapse_newlines (dropWhile (\<lambda>x. x = 10) cs)
      else c # collapse_newlines cs)"
  by pat_completeness auto
termination
  by (relation "measure length") (auto simp: length_dropWhile_le less_Suc_eq_le)

text \<open>The replacement text: \<open>[\<close>, "number", the start page, "page: start", \<open>]\<close>.\<close>

definition start_tag :: "int \<Rightarrow> pystr" where
  "start_tag start_page = asc ''['' @ [31532] @ str_int start_page @ [39029, 24320, 22987] @ asc '']''"

definition clean_page_content :: "pystr \<Rightarrow> int \<Rightarrow> pystr" where
  "clean_page_content content start_page =
     (if content = [] then content
      else py_strip (collapse_newlines (sub_tags (start_tag start_page) content)))"

lemma match_double_needs_bracket: "match_double (c # cs) = Some rest \<Longrightarrow> c = 91"
  by (auto simp: match_double_def match_tag_def eat_def bind_eq_Some_conv split: if_splits)

lemma sub_tags_plain: "91 \<notin> set s \<Longrightarrow> sub_tags repl s = s"
proof (induction s)
  case Nil show ?case by simp
next
  case (Cons c cs)
  then have "match_double (c # cs) = None"
    using match_double_needs_bracket[of c cs] by (cases "match_double (c # cs)") auto
  with Cons show ?case by simp
qed

lemma collapse_newlines_plain: "10 \<notin> set s \<Longrightarrow> collapse_newlines s = s"
  by (induction s) auto

lemma py_strip_plain:
  assumes "s \<noteq> []" and "\<not> py_isspace (hd s)" and "\<not> py_isspace (last s)"
  shows "py_strip s = s"
proof -
  have a: "dropWhile py_isspace s = s" using assms(1,2) by (cases s) auto
  have "dropWhile py_isspace (rev s) = rev s"
    using assms(1,3) by (cases "rev s") (auto simp: last_rev[symmetric] hd_rev)
  with a show ?thesis by (simp add: py_strip_def)
qed

lemma clean_replicate: "0 < n \<Longrightarrow> clean_page_content (replicate n 97) p = replicate n 97"
proof -
  assume n: "0 < n"
  have "py_strip (replicate n 97) = replicate n 97"
    using n by (intro py_strip_plain) (auto simp: py_isspace_def last_replicate)
  with n show ?thesis
    by (simp add: clean_page_content_def sub_tags_plain collapse_newlines_plain)
qed

section \<open>Assembling the ranges: the second half of \<open>_extract_pdf_pages_concurrent\<close>\<close>

text \<open>
  The \<open>results\<close> dictionary maps a task number to \<open>(start_page, content)\<close>.  A dictionary
  keeps its items in the order of insertion, here the order in which the workers stored
  their results, so it is modelled as the list of its items in that order.
\<close>

type_synonym task_result = "nat \<times> int \<times> pystr"

definition max_combined_length :: int where
  "max_combined_length = 500000"

text \<open>\<open>sep.join(parts)\<close> and the \<open>repr\<close> of a list of integers.\<close>

fun join_str :: "pystr \<Rightarrow> pystr list \<Rightarrow> pystr" where
  "join_str sep [] = []"
| "join_str sep [p] = p"
| "join_str sep (p # q # ps) = p @ sep @ join_str sep (q # ps)"

definition repr_int_list :: "int list \<Rightarrow> pystr" where
  "repr_int_list ps = asc ''['' @ join_str (asc '', '') (map str_int ps) @ asc '']''"

text \<open>
  The texts of the source: the note put behind a part cut at the total-length limit, the
  separator line, the two headers, the note behind the final cut, and the text returned
  when there is no result at all.
\<close>

definition limit_note :: "int \<Rightarrow> pystr" where
  "limit_note k =
     [10, 10] @ asc ''['' @
     [27880, 24847, 65306, 24635, 38271, 24230, 38480, 21046, 65292, 24050, 25130, 21462,
      21097, 20313] @ str_int k @ [75, 23383, 31526] @ asc '']''"

definition page_separator :: pystr where
  "page_separator =
     [10, 10] @ asc ''--- '' @ [39029, 38754, 20998, 21106, 32447] @ asc '' ---'' @ [10, 10]"

definition header_text :: "int list \<Rightarrow> pystr" where
  "header_text missing =
     (if missing \<noteq> []
      then asc ''['' @ [20998, 29255, 22788, 29702, 23436, 25104] @ asc '' - '' @
           [32570, 22833, 39029, 38754] @ asc '': '' @ repr_int_list (take 10 missing) @
           (if length missing > 10 then asc ''...'' else []) @ asc '']'' @ [10, 10]
      else asc ''['' @ [20998, 29255, 22788, 29702, 23436, 25104] @ asc '' - '' @
           [39029, 38754, 36830, 32493] @ asc '']'' @ [10, 10])"

definition final_note :: pystr where
  "final_note =
     [10, 10] @ asc ''['' @
     [27880, 24847, 65306, 21512, 24182, 21518, 24635, 38271, 24230, 36229, 38480, 65292,
      24050, 26368, 32456, 25130, 21462, 21040] @ str_int (max_combined_length div 1000) @
     [75, 23383, 31526] @ asc '']''"

definition all_failed_text :: "pystr \<Rightarrow> pystr" where
  "all_failed_text filename =
     asc ''['' @
     [24182, 21457, 22788, 29702, 22833, 36133, 65306, 25152, 26377, 20219, 21153, 37117,
      26410, 33021, 23436, 25104] @ asc ''] - '' @ filename"

text \<open>
  The variables of the merging loop.  \<open>stopped\<close> records that the loop was left through
  its \<open>break\<close>.
\<close>

record assembly =
  expected_page :: int
  missing_pages :: "int list"
  combined_parts :: "pystr list"
  total_length :: int
  stopped :: bool

definition assembly_start :: assembly where
  "assembly_start =
     \<lparr> expected_page = 1, missing_pages = [], combined_parts = [], total_length = 0,
       stopped = False \<rparr>"

text \<open>
  The end of the loop body: clean the content, append it, and move the expected page
  behind the first planned range that starts at this start page, if there is one.
\<close>

definition add_part :: "page_range list \<Rightarrow> assembly \<Rightarrow> int \<Rightarrow> pystr \<Rightarrow> assembly" where
  "add_part page_ranges st start_page content =
     (let cleaned = clean_page_content content start_page;
          st1 = st\<lparr>combined_parts := combined_parts st @ [cleaned],
                   total_length := total_length st + int (length cleaned)\<rparr>
      in case find (\<lambda>r. fst r = start_page) page_ranges of
           None \<Rightarrow> st1
         | Some task_range \<Rightarrow> st1\<lparr>expected_page := snd task_range + 1\<rparr>)"

text \<open>One pass through the loop body.\<close>

definition combine_step :: "page_range list \<Rightarrow> assembly \<Rightarrow> task_result \<Rightarrow> assembly" where
  "combine_step page_ranges st result =
     (case result of (task_id, start_page, content) \<Rightarrow>
        let st1 = (if start_page > expected_page st
                   then st\<lparr>missing_pages :=
                            missing_pages st @ [expected_page st .. start_page - 1]\<rparr>
                   else st)
        in if total_length st1 + int (length content) > max_combined_length
           then let remaining_space = max_combined_length - total_length st1
                in if remaining_space > 5000
                   then add_part page_ranges st1 start_page
                          (slice_to content (remaining_space - 1000) @
                           limit_note (remaining_space div 1000))
                   else st1\<lparr>stopped := True\<rparr>
           else add_part page_ranges st1 start_page content)"

fun combine :: "page_range list \<Rightarrow> task_result list \<Rightarrow> assembly \<Rightarrow> assembly" where
  "combine page_ranges [] st = st"
| "combine page_ranges (result # rest) st =
     (let st1 = combine_step page_ranges st result
      in if stopped st1 then st1 else combine page_ranges rest st1)"

text \<open>\<open>sorted(results.items(), key=lambda x: x[1][0])\<close>, a stable sort by start page.\<close>

definition sorted_results :: "task_result list \<Rightarrow> task_result list" where
  "sorted_results results = sort_key (\<lambda>x. fst (snd x)) results"

text \<open>The final length check, a cut after \<open>max_combined_length\<close> characters plus a note.\<close>

definition final_length_check :: "pystr \<Rightarrow> pystr" where
  "final_length_check combined_content =
     (if int (length combined_content) > max_combined_length
      then slice_to combined_content max_combined_length @ final_note
      else combined_content)"

definition merged :: "page_range list \<Rightarrow> task_result list \<Rightarrow> assembly" where
  "merged page_ranges results = combine page_ranges (sorted_results results) assembly_start"

definition assemble :: "page_range list \<Rightarrow> task_result list \<Rightarrow> pystr \<Rightarrow> pystr" where
  "assemble page_ranges results filename =
     (if results = [] then all_failed_text filename
      else
        let st = merged page_ranges results;
            combined_content =
              header_text (missing_pages st) @ join_str page_separator (combined_parts st)
        in final_length_check combined_content)"

text \<open>
  Three planned ranges and their three results: two contents of 200000 characters and
  one of 100000 characters, all of them the letter \<open>a\<close>.
\<close>

definition three_ranges :: "page_range list" where
  "three_ranges = [(1, 5), (6, 10), (11, 15)]"

definition three_results :: "task_result list" where
  "three_results =
     [(0, 1, replicate 200000 97), (1, 6, replicate 200000 97), (2, 11, replicate 100000 97)]"

lemma three_sorted: "sorted_results three_results = three_results"
  by (simp add: sorted_results_def three_results_def)

lemma three_merged:
  "merged three_ranges three_results =
     \<lparr> expected_page = 16, missing_pages = [],
       combined_parts = [replicate 200000 97, replicate 200000 97, replicate 100000 97],
       total_length = 500000, stopped = False \<rparr>"
  unfolding merged_def three_sorted
  by (simp add: three_results_def three_ranges_def combine_step_def add_part_def
      clean_replicate max_combined_length_def assembly_start_def Let_def)

lemma final_note_length: "length final_note = 28"
  by (simp add: final_note_def asc_def max_combined_length_def str_int_def dec_digits.simps)

text \<open>
  No content is over the cap of a single content, nothing is missing, and the parts add
  up to exactly 500000 characters; the header and the two separator lines bring the
  merged text to 500051 characters, so the final check cuts it after 500000 characters
  and appends its note: the text returned has 500028 characters.
\<close>

theorem assembled_length_counterexample:
  "int (length (replicate 200000 (97::nat))) \<le> 200000 \<and>
   int (length (assemble three_ranges three_results (asc ''a.pdf''))) = 500028 \<and>
   500028 > max_combined_length"
proof -
  let ?h = "header_text [] @ join_str page_separator
              [replicate 200000 97, replicate 200000 97, replicate 100000 97]"
  have l: "length ?h = 500051"
    by (simp add: header_text_def page_separator_def asc_def)
  have ne: "three_results \<noteq> []" by (simp add: three_results_def)
  have "assemble three_ranges three_results (asc ''a.pdf'') = final_length_check ?h"
    using ne by (simp add: assemble_def three_merged)
  also have "\<dots> = take 500000 ?h @ final_note"
    unfolding final_length_check_def slice_to_def max_combined_length_def l by simp
  finally have "assemble three_ranges three_results (asc ''a.pdf'') = take 500000 ?h @ final_note" .
  then have "length (assemble three_ranges three_results (asc ''a.pdf'')) = 500028"
    using l by (simp add: final_note_length)
  then show ?thesis by (simp add: max_combined_length_def)
qed

subsection \<open>Arrival order does not matter\<close>

lemma filter_key_single:
  "distinct (map f xs) \<Longrightarrow> k \<in> set xs \<Longrightarrow> filter (\<lambda>x. f k = f x) xs = [k]"
proof (induction xs)
  case Nil then show ?case by simp
next
  case (Cons a xs)
  show ?case
  proof (cases "k = a")
    case True
    with Cons.prems(1) have "filter (\<lambda>x. f a = f x) xs = []"
      by (auto simp: filter_empty_conv)
    with True show ?thesis by simp
  next
    case False
    with Cons.prems have "k \<in> set xs" "f k \<noteq> f a" by (auto simp: image_iff)
    with Cons show ?thesis by simp
  qed
qed

lemma sort_key_arrival:
  assumes "distinct (map f xs)" and "mset ys = mset xs"
  shows "sort_key f ys = sort_key f xs"
proof (rule properties_for_sort_key)
  show "mset (sort_key f xs) = mset ys" using assms(2) by simp
  show "sorted (map f (sort_key f xs))" by simp
next
  fix k assume k: "k \<in> set (sort_key f xs)"
  have dy: "distinct (map f ys)"
    using assms by (metis distinct_map mset_eq_imp_distinct_iff mset_map set_mset_mset mset_eq_setD)
  have ds: "distinct (map f (sort_key f xs))"
    using assms(1) by (metis distinct_map mset_eq_imp_distinct_iff mset_map mset_sort set_sort distinct_sort)
  from k have kx: "k \<in> set xs" by simp
  then have ky: "k \<in> set ys" using assms(2) by (metis mset_eq_setD)
  show "filter (\<lambda>x. f k = f x) (sort_key f xs) = filter (\<lambda>x. f k = f x) ys"
    using filter_key_single[OF ds k] filter_key_single[OF dy ky] by simp
qed

text \<open>
  No part reaches the total-length limit: every content still fits behind the cleaned
  contents before it.
\<close>

fun within_limit :: "int \<Rightarrow> task_result list \<Rightarrow> bool" where
  "within_limit len [] = True"
| "within_limit len ((task_id, start_page, content) # rest) =
     (len + int (length content) \<le> max_combined_length \<and>
      within_limit (len + int (length (clean_page_content content start_page))) rest)"

definition cleaned_part :: "task_result \<Rightarrow> pystr" where
  "cleaned_part result = (case result of (task_id, start_page, content) \<Rightarrow>
                            clean_page_content content start_page)"

lemma add_part_fields:
  "combined_parts (add_part pr st s c) = combined_parts st @ [clean_page_content c s]"
  "total_length (add_part pr st s c) = total_length st + int (length (clean_page_content c s))"
  "stopped (add_part pr st s c) = stopped st"
  "missing_pages (add_part pr st s c) = missing_pages st"
  by (simp_all add: add_part_def Let_def split: option.splits)

lemma combine_within_limit:
  "within_limit (total_length st) xs \<Longrightarrow> \<not> stopped st \<Longrightarrow>
   combined_parts (combine pr xs st) = combined_parts st @ map cleaned_part xs \<and>
   \<not> stopped (combine pr xs st)"
proof (induction xs arbitrary: st)
  case Nil then show ?case by simp
next
  case (Cons x xs)
  obtain i s c where x: "x = (i, s, c)" by (cases x)
  let ?st0 = "(if s > expected_page st
                   then st\<lparr>missing_pages := missing_pages st @ [expected_page st .. s - 1]\<rparr>
                   else st)"
  let ?st1 = "add_part pr ?st0 s c"
  from Cons.prems x have fit: "total_length st + int (length c) \<le> max_combined_length"
    and rest: "within_limit (total_length st + int (length (clean_page_content c s))) xs"
    by simp_all
  have step: "combine_step pr st x = ?st1"
    using fit by (simp add: combine_step_def x Let_def)
  have f: "total_length ?st1 = total_length st + int (length (clean_page_content c s))"
    "\<not> stopped ?st1" "combined_parts ?st1 = combined_parts st @ [clean_page_content c s]"
    using Cons.prems(2) by (simp_all add: add_part_fields)
  from Cons.IH[of ?st1] rest f
  have "combined_parts (combine pr xs ?st1) = combined_parts ?st1 @ map cleaned_part xs \<and>
        \<not> stopped (combine pr xs ?st1)" by simp
  then show ?case
    unfolding combine.simps step Let_def using f x by (simp add: cleaned_part_def)
qed

text \<open>
  C4.  For results with pairwise different start pages (one result per planned range),
  the assembled text is the same for every order in which the results were stored: the
  results are put in the one ascending order of their start pages, and, as long as no part
  reaches the total-length limit, the text is the header followed by the cleaned contents
  in that order, joined by the separator line (and passed through the final length
  check).
\<close>

theorem assembly_order_independent:
  assumes "distinct (map (\<lambda>x. fst (snd x)) results)" and "mset results' = mset results"
  shows "assemble page_ranges results' filename = assemble page_ranges results filename \<and>
         sorted_results results' = sorted_results results \<and>
         sorted (map (\<lambda>x. fst (snd x)) (sorted_results results)) \<and>
         mset (sorted_results results) = mset results \<and>
         (results \<noteq> [] \<and> within_limit 0 (sorted_results results) \<longrightarrow>
            assemble page_ranges results' filename =
              final_length_check
                (header_text (missing_pages (merged page_ranges results)) @
                 join_str page_separator (map cleaned_part (sorted_results results))))"
proof -
  have s: "sorted_results results' = sorted_results results"
    unfolding sorted_results_def by (rule sort_key_arrival[OF assms])
  have e: "results' = [] \<longleftrightarrow> results = []" using assms(2) by (metis mset_zero_iff)
  have a: "assemble page_ranges results' filename = assemble page_ranges results filename"
    using s e by (simp add: assemble_def merged_def)
  have w: "assemble page_ranges results filename =
              final_length_check
                (header_text (missing_pages (merged page_ranges results)) @
                 join_str page_separator (map cleaned_part (sorted_results results)))"
    if "results \<noteq> []" "within_limit 0 (sorted_results results)"
  proof -
    have "combined_parts (merged page_ranges results) = map cleaned_part (sorted_results results)"
      using combine_within_limit[of assembly_start "sorted_results results" page_ranges] that(2)
      by (simp add: merged_def assembly_start_def)
    with that(1) show ?thesis by (simp add: assemble_def Let_def)
  qed
  show ?thesis using s a w by (simp add: sorted_results_def)
qed

theorem assembly_order_independent_witness:
  "distinct (map (\<lambda>x. fst (snd x)) [(0::nat, 1::int, [97::nat]), (1, 6, [98])]) \<and>
   mset [(1::nat, 6::int, [98::nat]), (0, 1, [97])] = mset [(0, 1, [97]), (1, 6, [98])] \<and>
   assemble [(1, 5), (6, 10)] [(1, 6, [98]), (0, 1, [97])] [] =
   assemble [(1, 5), (6, 10)] [(0, 1, [97]), (1, 6, [98])] [] \<and>
   sorted_results [(1, 6, [98]), (0, 1, [97])] = sorted_results [(0, 1, [97]), (1, 6, [98])]"
proof -
  have h1: "distinct (map (\<lambda>x. fst (snd x)) [(0::nat, 1::int, [97::nat]), (1, 6, [98])])"
    by simp
  have h2: "mset [(1::nat, 6::int, [98::nat]), (0, 1, [97])] = mset [(0, 1, [97]), (1, 6, [98])]"
    by (simp add: add_mset_commute)
  note t = assembly_order_independent[OF h1 h2, of "[(1, 5), (6, 10)]" "[]"]
  have a: "assemble [(1, 5), (6, 10)] [(1, 6, [98]), (0, 1, [97])] [] =
           assemble [(1, 5), (6, 10)] [(0, 1, [97]), (1, 6, [98])] []"
    using t by (rule conjunct1)
  have b: "sorted_results [(1::nat, 6::int, [98::nat]), (0, 1, [97])] =
           sorted_results [(0, 1, [97]), (1, 6, [98])]"
    using t by (elim conjE)
  from h1 h2 a b show ?thesis by (intro conjI)
qed

subsection \<open>Reporting a missing range\<close>

lemma covers_first: "covers a b rs \<Longrightarrow> rs \<noteq> [] \<Longrightarrow> fst (rs ! 0) = a"
  by (cases rs) auto

lemma covers_adjacent:
  "covers a b rs \<Longrightarrow> Suc i < length rs \<Longrightarrow> fst (rs ! Suc i) = snd (rs ! i) + 1"
proof (induction a b rs arbitrary: i rule: covers.induct)
  case (1 a b) then show ?case by simp
next
  case (2 a b s e rs)
  then have c: "covers (e + 1) b rs" by simp
  show ?case
  proof (cases i)
    case 0
    with 2(3) have "rs \<noteq> []" by auto
    from covers_first[OF c this] 0 show ?thesis by simp
  next
    case (Suc j)
    with 2(3) have "Suc j < length rs" by simp
    from 2(1)[OF c this] Suc show ?thesis by simp
  qed
qed

lemma covers_nonempty: "covers a b rs \<Longrightarrow> i < length rs \<Longrightarrow> fst (rs ! i) \<le> snd (rs ! i)"
  using covers_bounds[of a b rs "rs ! i"] by simp

lemma covers_starts_less:
  "covers a b rs \<Longrightarrow> i < j \<Longrightarrow> j < length rs \<Longrightarrow> fst (rs ! i) < fst (rs ! j)"
  using covers_ascending[of a b rs] sorted_wrt_nth_less[of "(<)" "map fst rs" i j] by simp

lemma covers_distinct_starts: "covers a b rs \<Longrightarrow> distinct (map fst rs)"
  using covers_ascending[of a b rs] by (simp add: strict_sorted_iff)

lemma find_range:
  assumes "distinct (map fst pr)" and "i < length pr"
  shows "find (\<lambda>r. fst r = fst (pr ! i)) pr = Some (pr ! i)"
proof -
  have "\<forall>j<i. fst (pr ! j) \<noteq> fst (pr ! i)"
  proof (intro allI impI)
    fix j assume "j < i"
    with assms show "fst (pr ! j) \<noteq> fst (pr ! i)"
      using nth_eq_iff_index_eq[of "map fst pr" j i] by simp
  qed
  with assms(2) show ?thesis unfolding find_Some_iff by blast
qed

text \<open>The result stored for planned range number \<open>i\<close>, with content \<open>content i\<close>.\<close>

definition range_result :: "page_range list \<Rightarrow> (nat \<Rightarrow> pystr) \<Rightarrow> nat \<Rightarrow> task_result" where
  "range_result pr content i = (i, fst (pr ! i), content i)"

lemma combine_step_range:
  assumes "distinct (map fst pr)" and "i < length pr"
    and "\<not> stopped (combine_step pr st (range_result pr content i))"
  shows "expected_page (combine_step pr st (range_result pr content i)) = snd (pr ! i) + 1"
    and "missing_pages (combine_step pr st (range_result pr content i)) =
           missing_pages st @
           (if fst (pr ! i) > expected_page st then [expected_page st .. fst (pr ! i) - 1] else [])"
  using assms(3) find_range[OF assms(1,2)]
  by (auto simp add: combine_step_def range_result_def add_part_def Let_def split: if_splits)

lemma combine_run:
  assumes cov: "covers a b pr"
  shows "i \<le> j \<Longrightarrow> j \<le> length pr \<Longrightarrow> (i < j \<longrightarrow> expected_page st = fst (pr ! i)) \<Longrightarrow>
         \<not> stopped (combine pr (map (range_result pr content) [i..<j] @ rest) st) \<Longrightarrow>
         \<exists>st'. combine pr (map (range_result pr content) [i..<j] @ rest) st = combine pr rest st' \<and>
               missing_pages st' = missing_pages st \<and>
               expected_page st' = (if i < j then snd (pr ! (j - 1)) + 1 else expected_page st)"
proof (induction "j - i" arbitrary: i st)
  case 0
  then have "i = j" by simp
  then show ?case by (intro exI[of _ st]) simp
next
  case (Suc d)
  then have ij: "i < j" by simp
  let ?g = "range_result pr content"
  let ?st1 = "combine_step pr st (?g i)"
  have il: "i < length pr" using ij Suc.prems(2) by simp
  have unf: "map ?g [i..<j] @ rest = ?g i # (map ?g [Suc i..<j] @ rest)"
    using ij by (simp add: upt_conv_Cons)
  have ns1: "\<not> stopped ?st1"
  proof
    assume "stopped ?st1"
    then have "combine pr (map ?g [i..<j] @ rest) st = ?st1"
      unfolding unf by (simp add: Let_def)
    with Suc.prems(4) \<open>stopped ?st1\<close> show False by simp
  qed
  then have c1: "combine pr (map ?g [i..<j] @ rest) st =
                 combine pr (map ?g [Suc i..<j] @ rest) ?st1"
    unfolding unf by (simp add: Let_def)
  have ds: "distinct (map fst pr)" by (rule covers_distinct_starts[OF cov])
  have e1: "expected_page ?st1 = snd (pr ! i) + 1"
    by (rule combine_step_range(1)[OF ds il ns1])
  have "expected_page st = fst (pr ! i)" using Suc.prems(3) ij by simp
  with combine_step_range(2)[OF ds il ns1] have m1: "missing_pages ?st1 = missing_pages st"
    by simp
  have p3: "Suc i < j \<longrightarrow> expected_page ?st1 = fst (pr ! Suc i)"
  proof
    assume "Suc i < j"
    with Suc.prems(2) have "Suc i < length pr" by simp
    from covers_adjacent[OF cov this] e1 show "expected_page ?st1 = fst (pr ! Suc i)" by simp
  qed
  have d: "d = j - Suc i" using Suc(2) by simp
  have p1: "Suc i \<le> j" using ij by simp
  have p4: "\<not> stopped (combine pr (map ?g [Suc i..<j] @ rest) ?st1)"
    using Suc.prems(4) c1 by simp
  from Suc(1)[OF d p1 Suc.prems(2) p3 p4] obtain st' where
    st': "combine pr (map ?g [Suc i..<j] @ rest) ?st1 = combine pr rest st'"
         "missing_pages st' = missing_pages ?st1"
         "expected_page st' = (if Suc i < j then snd (pr ! (j - 1)) + 1 else expected_page ?st1)"
    by blast
  have e': "expected_page st' = snd (pr ! (j - 1)) + 1"
  proof (cases "Suc i < j")
    case True with st'(3) show ?thesis by simp
  next
    case False
    with ij have "j - 1 = i" by simp
    with False st'(3) e1 show ?thesis by simp
  qed
  show ?case
  proof (intro exI[of _ st'] conjI)
    show "combine pr (map ?g [i..<j] @ rest) st = combine pr rest st'"
      using c1 st'(1) by (rule trans)
    show "missing_pages st' = missing_pages st" using st'(2) m1 by (rule trans)
    show "expected_page st' = (if i < j then snd (pr ! (j - 1)) + 1 else expected_page st)"
      using e' ij by simp
  qed
qed

lemma filter_skip: "k < n \<Longrightarrow> filter (\<lambda>i. i \<noteq> k) [0..<n] = [0..<k] @ [Suc k..<n]"
proof (induction n)
  case 0 then show ?case by simp
next
  case (Suc n)
  show ?case
  proof (cases "k = n")
    case True
    have "filter (\<lambda>i. i \<noteq> n) [0..<n] = [0..<n]" by (simp add: filter_id_conv)
    with True show ?thesis by simp
  next
    case False
    with Suc.prems have "k < n" by simp
    with Suc.IH show ?thesis by simp
  qed
qed

lemma results_in_order:
  assumes cov: "covers a b pr" and k: "k < length pr"
    and res: "mset results =
              mset (map (range_result pr content) (filter (\<lambda>i. i \<noteq> k) [0..<length pr]))"
  shows "sorted_results results =
           map (range_result pr content) [0..<k] @ map (range_result pr content) [Suc k..<length pr]"
proof -
  let ?g = "range_result pr content" and ?f = "\<lambda>x::task_result. fst (snd x)"
  let ?is = "filter (\<lambda>i. i \<noteq> k) [0..<length pr]"
  have fg: "map ?f (map ?g ?is) = map (\<lambda>i. fst (pr ! i)) ?is"
    by (simp add: range_result_def)
  have "sorted_wrt (<) ?is" by (intro sorted_wrt_filter) simp
  then have "sorted_wrt (\<lambda>i j. fst (pr ! i) < fst (pr ! j)) ?is"
  proof (rule sorted_wrt_mono_rel[rotated])
    fix i j assume "i \<in> set ?is" "j \<in> set ?is" "i < j"
    then show "fst (pr ! i) < fst (pr ! j)"
      using covers_starts_less[OF cov, of i j] by simp
  qed
  then have st: "sorted_wrt (<) (map ?f (map ?g ?is))"
    unfolding fg by (simp add: sorted_wrt_map)
  then have d: "distinct (map ?f (map ?g ?is))" and so: "sorted (map ?f (map ?g ?is))"
    by (simp_all add: strict_sorted_iff)
  have "sorted_results results = sort_key ?f (map ?g ?is)"
    unfolding sorted_results_def by (rule sort_key_arrival[OF d res])
  also have "\<dots> = map ?g ?is" by (rule sort_key_id_if_sorted[OF so])
  finally show ?thesis by (simp add: filter_skip[OF k])
qed

lemma combine_step_missing:
  "missing_pages (combine_step pr st (range_result pr content i)) =
     missing_pages st @
     (if fst (pr ! i) > expected_page st then [expected_page st .. fst (pr ! i) - 1] else [])"
  by (simp add: combine_step_def range_result_def add_part_def Let_def split: option.splits)

lemma combine_append:
  "\<not> stopped st \<Longrightarrow>
   combine pr (xs @ ys) st =
     (if stopped (combine pr xs st) then combine pr xs st else combine pr ys (combine pr xs st))"
proof (induction xs arbitrary: st)
  case Nil
  then show ?case by simp
next
  case (Cons x xs)
  show ?case
  proof (cases "stopped (combine_step pr st x)")
    case True
    then show ?thesis by (simp add: Let_def)
  next
    case False
    from Cons.IH[OF False] False show ?thesis by (simp add: Let_def)
  qed
qed

text \<open>Results for planned ranges that follow one another add no missing page.\<close>

lemma combine_no_gap:
  assumes cov: "covers a b pr"
  shows "i \<le> j \<Longrightarrow> j \<le> length pr \<Longrightarrow> (i < j \<longrightarrow> expected_page st = fst (pr ! i)) \<Longrightarrow>
         missing_pages (combine pr (map (range_result pr content) [i..<j]) st) = missing_pages st"
proof (induction "j - i" arbitrary: i st)
  case 0
  then have "i = j" by simp
  then show ?case by simp
next
  case (Suc d)
  then have ij: "i < j" by simp
  let ?g = "range_result pr content"
  let ?st1 = "combine_step pr st (?g i)"
  have il: "i < length pr" using ij Suc.prems(2) by simp
  have unf: "map ?g [i..<j] = ?g i # map ?g [Suc i..<j]"
    using ij by (simp add: upt_conv_Cons)
  have "expected_page st = fst (pr ! i)" using Suc.prems(3) ij by simp
  then have m1: "missing_pages ?st1 = missing_pages st"
    by (simp add: combine_step_missing)
  show ?case
  proof (cases "stopped ?st1")
    case True
    then have "combine pr (map ?g [i..<j]) st = ?st1" unfolding unf by (simp add: Let_def)
    with m1 show ?thesis by simp
  next
    case False
    then have c1: "combine pr (map ?g [i..<j]) st = combine pr (map ?g [Suc i..<j]) ?st1"
      unfolding unf by (simp add: Let_def)
    have ds: "distinct (map fst pr)" by (rule covers_distinct_starts[OF cov])
    have e1: "expected_page ?st1 = snd (pr ! i) + 1"
      by (rule combine_step_range(1)[OF ds il False])
    have p3: "Suc i < j \<longrightarrow> expected_page ?st1 = fst (pr ! Suc i)"
    proof
      assume "Suc i < j"
      with Suc.prems(2) have "Suc i < length pr" by simp
      from covers_adjacent[OF cov this] e1 show "expected_page ?st1 = fst (pr ! Suc i)" by simp
    qed
    have d: "d = j - Suc i" using Suc(2) by simp
    have p1: "Suc i \<le> j" using ij by simp
    from Suc(1)[OF d p1 Suc.prems(2) p3]
    have "missing_pages (combine pr (map ?g [Suc i..<j]) ?st1) = missing_pages ?st1" .
    with c1 m1 show ?thesis by simp
  qed
qed

text \<open>
  C5 (as amended).  The planned ranges are contiguous from page 1, and the results hold,
  in any order, one result for every planned range except range number \<open>k\<close>, which is
  neither the first nor the last.  In the sorted results the first \<open>k\<close> are those of the
  ranges in front of the gap.  If the merging loop is not left at the total-length limit
  on one of them, so that it reaches the first result behind the gap, the list of missing
  pages is exactly the pages of range \<open>k\<close>, whether or not the loop is left later, and the
  assembled text starts with the header for that list.  If the loop is left on one of
  them, no page is listed as missing.
\<close>

theorem missing_range_reported:
  assumes cov: "covers 1 N page_ranges"
    and k: "0 < k" "Suc k < length page_ranges"
    and res: "mset results =
              mset (map (range_result page_ranges content)
                     (filter (\<lambda>i. i \<noteq> k) [0..<length page_ranges]))"
  shows "(\<not> stopped (combine page_ranges (take k (sorted_results results)) assembly_start) \<longrightarrow>
            missing_pages (merged page_ranges results)
              = [fst (page_ranges ! k) .. snd (page_ranges ! k)] \<and>
            assemble page_ranges results filename =
              final_length_check
                (header_text [fst (page_ranges ! k) .. snd (page_ranges ! k)] @
                 join_str page_separator (combined_parts (merged page_ranges results)))) \<and>
         (stopped (combine page_ranges (take k (sorted_results results)) assembly_start) \<longrightarrow>
            missing_pages (merged page_ranges results) = [])"
proof -
  let ?pr = page_ranges and ?n = "length page_ranges"
  let ?g = "range_result page_ranges content"
  let ?A = "map ?g [0..<k]" and ?B = "map ?g [Suc k..<?n]"
  let ?T = "map ?g [Suc (Suc k)..<?n]"
  have kn: "k < ?n" using k by simp
  have ds: "distinct (map fst ?pr)" by (rule covers_distinct_starts[OF cov])
  have so: "sorted_results results = ?A @ ?B"
    by (rule results_in_order[OF cov kn res])
  have tk: "take k (sorted_results results) = ?A" unfolding so by simp
  let ?stA = "combine ?pr ?A assembly_start"
  have tl: "?B = ?g (Suc k) # ?T"
    using k(2) by (simp add: upt_conv_Cons)
  have ns0: "\<not> stopped assembly_start" by (simp add: assembly_start_def)
  have m: "merged ?pr results = (if stopped ?stA then ?stA else combine ?pr ?B ?stA)"
    unfolding merged_def so by (rule combine_append[OF ns0])
  have ne: "?pr \<noteq> []" using k by auto
  have e0: "0 < k \<longrightarrow> expected_page assembly_start = fst (?pr ! 0)"
    using covers_first[OF cov ne] by (simp add: assembly_start_def)
  have kl: "k \<le> ?n" using kn by simp
  have mA: "missing_pages ?stA = []"
    using combine_no_gap[OF cov _ kl e0, of content] by (simp add: assembly_start_def)
  have part2: "missing_pages (merged ?pr results) = []" if "stopped ?stA"
    using that m mA by simp
  have part1: "missing_pages (merged ?pr results) = [fst (?pr ! k) .. snd (?pr ! k)]"
    if nsA: "\<not> stopped ?stA"
  proof -
    have nsA': "\<not> stopped (combine ?pr (?A @ []) assembly_start)" using nsA by simp
    from combine_run[OF cov _ kl e0 nsA'] obtain st1 where
      st1: "combine ?pr (?A @ []) assembly_start = combine ?pr [] st1"
           "expected_page st1 = (if 0 < k then snd (?pr ! (k - 1)) + 1
                                 else expected_page assembly_start)"
      by auto
    from st1(1) have "st1 = ?stA" by simp
    with st1(2) k(1) have xA: "expected_page ?stA = snd (?pr ! (k - 1)) + 1" by simp
    have "Suc (k - 1) < ?n" using k kn by simp
    from covers_adjacent[OF cov this] k(1) xA
    have x1: "expected_page ?stA = fst (?pr ! k)" by simp
    let ?st2 = "combine_step ?pr ?stA (?g (Suc k))"
    have adj: "fst (?pr ! Suc k) = snd (?pr ! k) + 1" by (rule covers_adjacent[OF cov k(2)])
    have nonempty: "fst (?pr ! k) \<le> snd (?pr ! k)" by (rule covers_nonempty[OF cov kn])
    have m2: "missing_pages ?st2 = [fst (?pr ! k) .. snd (?pr ! k)]"
      using x1 mA adj nonempty by (simp add: combine_step_missing)
    have mB: "merged ?pr results = (if stopped ?st2 then ?st2 else combine ?pr ?T ?st2)"
      using m nsA unfolding tl by (simp add: Let_def)
    show ?thesis
    proof (cases "stopped ?st2")
      case True
      with mB m2 show ?thesis by simp
    next
      case False
      have x2: "expected_page ?st2 = snd (?pr ! Suc k) + 1"
        by (rule combine_step_range(1)[OF ds k(2) False])
      have e2: "Suc (Suc k) < ?n \<longrightarrow> expected_page ?st2 = fst (?pr ! Suc (Suc k))"
      proof
        assume "Suc (Suc k) < ?n"
        from covers_adjacent[OF cov this] x2
        show "expected_page ?st2 = fst (?pr ! Suc (Suc k))" by simp
      qed
      have le: "Suc (Suc k) \<le> ?n" using k(2) by simp
      from combine_no_gap[OF cov le _ e2, of content]
      have "missing_pages (combine ?pr ?T ?st2) = missing_pages ?st2" by simp
      with mB False m2 show ?thesis by simp
    qed
  qed
  have "results \<noteq> []"
  proof
    assume "results = []"
    then have "sorted_results results = []" by (simp add: sorted_results_def)
    with so tl show False by simp
  qed
  then have as: "assemble ?pr results filename =
           final_length_check
             (header_text (missing_pages (merged ?pr results)) @
              join_str page_separator (combined_parts (merged ?pr results)))"
    by (simp add: assemble_def Let_def)
  show ?thesis
    unfolding tk using part1 part2 as by simp
qed

text \<open>
  Six planned ranges of five pages, and results for all of them but the second (pages 6 to
  10): two contents of 200000 characters, one of 100000 characters and two of a single
  character.  The loop passes the result in front of the gap, lists the pages of the gap
  at the next result, and is left at the total-length limit two results later.
\<close>

definition six_ranges :: "page_range list" where
  "six_ranges = [(1, 5), (6, 10), (11, 15), (16, 20), (21, 25), (26, 30)]"

definition late_results :: "task_result list" where
  "late_results =
     [(0, 1, replicate 200000 97), (2, 11, replicate 200000 97), (3, 16, replicate 100000 97),
      (4, 21, [97]), (5, 26, [97])]"

definition late_content :: "nat \<Rightarrow> pystr" where
  "late_content i =
     (if i < 3 then replicate 200000 97 else if i = 3 then replicate 100000 97 else [97])"

lemma late_sorted: "sorted_results late_results = late_results"
  by (simp add: sorted_results_def late_results_def)

lemma late_merged:
  "merged six_ranges late_results =
     \<lparr> expected_page = 21, missing_pages = [6, 7, 8, 9, 10],
       combined_parts = [replicate 200000 97, replicate 200000 97, replicate 100000 97],
       total_length = 500000, stopped = True \<rparr>"
  unfolding merged_def late_sorted
  by (simp add: late_results_def six_ranges_def combine_step_def add_part_def
      clean_replicate max_combined_length_def assembly_start_def Let_def)

theorem missing_range_reported_witness:
  "covers 1 30 six_ranges \<and>
   late_results = map (range_result six_ranges late_content) [0, 2, 3, 4, 5] \<and>
   \<not> stopped (combine six_ranges (take 1 (sorted_results late_results)) assembly_start) \<and>
   stopped (merged six_ranges late_results) \<and>
   missing_pages (merged six_ranges late_results) = [6, 7, 8, 9, 10]"
proof -
  have h1: "covers 1 30 six_ranges" by (simp add: six_ranges_def)
  have h2: "(0::nat) < 1" by simp
  have h3: "Suc 1 < length six_ranges" by (simp add: six_ranges_def)
  have b: "late_results = map (range_result six_ranges late_content) [0, 2, 3, 4, 5]"
    by (simp add: late_results_def six_ranges_def range_result_def late_content_def)
  have fl: "filter (\<lambda>i. i \<noteq> 1) [0..<length six_ranges] = [0, 2, 3, 4, 5]"
    by (simp add: six_ranges_def upt_rec)
  have h4: "mset late_results = mset (map (range_result six_ranges late_content)
            (filter (\<lambda>i. i \<noteq> 1) [0..<length six_ranges]))"
    unfolding fl using b by simp
  have h5: "\<not> stopped (combine six_ranges (take 1 (sorted_results late_results)) assembly_start)"
    unfolding late_sorted
    by (simp add: late_results_def six_ranges_def combine_step_def add_part_def
        clean_replicate max_combined_length_def assembly_start_def Let_def)
  have s: "stopped (merged six_ranges late_results)" by (simp add: late_merged)
  from missing_range_reported[OF h1 h2 h3 h4] h5
  have "missing_pages (merged six_ranges late_results)
          = [fst (six_ranges ! 1) .. snd (six_ranges ! 1)]" by blast
  also have "\<dots> = [6, 7, 8, 9, 10]" by (simp add: six_ranges_def upto_rec1)
  finally have c: "missing_pages (merged six_ranges late_results) = [6, 7, 8, 9, 10]" .
  from h1 b h5 s c show ?thesis by (intro conjI)
qed

text \<open>
  Results for all of the six ranges but the fifth (pages 21 to 25): two contents of 200000
  characters, one of 100000 characters and two of a single character.
\<close>

definition five_results :: "task_result list" where
  "five_results =
     [(0, 1, replicate 200000 97), (1, 6, replicate 200000 97), (2, 11, replicate 100000 97),
      (3, 16, [97]), (5, 26, [97])]"

definition five_content :: "nat \<Rightarrow> pystr" where
  "five_content i =
     (if i < 2 then replicate 200000 97 else if i = 2 then replicate 100000 97 else [97])"

lemma five_sorted: "sorted_results five_results = five_results"
  by (simp add: sorted_results_def five_results_def)

lemma five_merged:
  "merged six_ranges five_results =
     \<lparr> expected_page = 16, missing_pages = [],
       combined_parts = [replicate 200000 97, replicate 200000 97, replicate 100000 97],
       total_length = 500000, stopped = True \<rparr>"
  unfolding merged_def five_sorted
  by (simp add: five_results_def six_ranges_def combine_step_def add_part_def
      clean_replicate max_combined_length_def assembly_start_def Let_def)

text \<open>
  The first three parts fill the total length exactly, so the loop is left at the fourth
  result; the result behind the gap is never looked at, the list of missing pages stays
  empty, and the text starts with the header for "no page missing".
\<close>

theorem missing_range_counterexample:
  "covers 1 30 six_ranges \<and>
   five_results = map (range_result six_ranges five_content) [0, 1, 2, 3, 5] \<and>
   missing_pages (merged six_ranges five_results) = [] \<and>
   take 17 (assemble six_ranges five_results (asc ''a.pdf'')) = header_text []"
proof -
  have a: "covers 1 30 six_ranges" by (simp add: six_ranges_def)
  have b: "five_results = map (range_result six_ranges five_content) [0, 1, 2, 3, 5]"
    by (simp add: five_results_def six_ranges_def range_result_def five_content_def)
  have c: "missing_pages (merged six_ranges five_results) = []"
    by (simp add: five_merged)
  have ne: "five_results \<noteq> []" by (simp add: five_results_def)
  let ?h = "header_text [] @ join_str page_separator
              [replicate 200000 97, replicate 200000 97, replicate 100000 97]"
  have l: "length ?h = 500051"
    by (simp add: header_text_def page_separator_def asc_def)
  have hl: "length (header_text []) = 17" by (simp add: header_text_def asc_def)
  have "assemble six_ranges five_results (asc ''a.pdf'') = final_length_check ?h"
    using ne by (simp add: assemble_def five_merged)
  also have "\<dots> = take 500000 ?h @ final_note"
    unfolding final_length_check_def slice_to_def max_combined_length_def l by simp
  finally have "take 17 (assemble six_ranges five_results (asc ''a.pdf'')) = take 17 (take 500000 ?h)"
    using l by simp
  also have "\<dots> = take (min 17 500000) ?h" by (rule take_take)
  also have "\<dots> = header_text []" using hl by simp
  finally have d: "take 17 (assemble six_ranges five_results (asc ''a.pdf'')) = header_text []" .
  from a b c d show ?thesis by (intro conjI)
qed

section \<open>The content cache: \<open>SmartCacheManager\<close> (cache\_manager.py)\<close>

text \<open>
  Time stamps (\<open>time.time()\<close>, \<open>st_mtime\<close>) are numbers that the code only subtracts and
  compares; they are modelled as integers, in seconds.  A source file is its bytes, its
  modification time and whether it can be opened for reading; its size is the number of
  its bytes.  The file system maps a path to the file there, if any.
\<close>

type_synonym bytes = "nat list"

record source_file =
  data :: bytes
  st_mtime :: int
  readable :: bool

type_synonym file_system = "pystr \<rightharpoonup> source_file"

definition st_size :: "source_file \<Rightarrow> nat" where
  "st_size f = length (data f)"

text \<open>\<open>CacheEntry\<close>\<close>

record cache_entry =
  content :: pystr
  file_hash :: pystr
  file_size :: nat
  file_mtime :: int
  cache_time :: int
  access_count :: int
  last_access :: int

definition is_expired :: "cache_entry \<Rightarrow> int \<Rightarrow> int \<Rightarrow> bool" where
  "is_expired entry now max_age_hours \<longleftrightarrow> now - cache_time entry > max_age_hours * 3600"

definition is_file_changed :: "cache_entry \<Rightarrow> file_system \<Rightarrow> pystr \<Rightarrow> bool" where
  "is_file_changed entry fs file_path =
     (case fs file_path of
        None \<Rightarrow> True
      | Some f \<Rightarrow> st_size f \<noteq> file_size entry \<or> st_mtime f \<noteq> file_mtime entry)"

text \<open>
  What the code takes from libraries: the MD5 digest of a byte string as a hexadecimal
  string, the UTF-8 encoding of a string, and the text of a floating-point number.
\<close>

record hashing =
  md5_hex :: "bytes \<Rightarrow> pystr"
  utf8 :: "pystr \<Rightarrow> bytes"
  str_float :: "int \<Rightarrow> pystr"

text \<open>
  \<open>_get_file_hash\<close>: the digest of the whole file when it has at most 10 MB; of its first
  and last megabyte and of \<open>path_size_mtime\<close> when it is larger; of \<open>path_size_mtime\<close> alone
  when it cannot be read; of the path when there is no such file.
\<close>

definition file_info :: "hashing \<Rightarrow> pystr \<Rightarrow> source_file \<Rightarrow> pystr" where
  "file_info h file_path f =
     file_path @ asc ''_'' @ str_int (int (st_size f)) @ asc ''_'' @ str_float h (st_mtime f)"

definition get_file_hash :: "hashing \<Rightarrow> file_system \<Rightarrow> pystr \<Rightarrow> pystr" where
  "get_file_hash h fs file_path =
     (case fs file_path of
        None \<Rightarrow> md5_hex h (utf8 h file_path)
      | Some f \<Rightarrow>
          if \<not> readable f then md5_hex h (utf8 h (file_info h file_path f))
          else if st_size f > 10 * 1024 * 1024
          then md5_hex h
                 (take (1024 * 1024) (data f) @
                  (if st_size f > 2 * 1024 * 1024
                   then drop (st_size f - 1024 * 1024) (data f) else []) @
                  utf8 h (file_info h file_path f))
          else md5_hex h (data f))"

definition get_cache_key :: "pystr \<Rightarrow> pystr \<Rightarrow> pystr" where
  "get_cache_key hash prefix = (if prefix \<noteq> [] then prefix @ asc ''_'' @ hash else hash)"

text \<open>
  A dictionary with its insertion order: assigning to a key that is present keeps its
  place, a new key goes to the end.
\<close>

fun dict_set :: "'k \<Rightarrow> 'v \<Rightarrow> ('k \<times> 'v) list \<Rightarrow> ('k \<times> 'v) list" where
  "dict_set k v [] = [(k, v)]"
| "dict_set k v (p # ps) = (if fst p = k then (k, v) # ps else p # dict_set k v ps)"

definition dict_del :: "'k \<Rightarrow> ('k \<times> 'v) list \<Rightarrow> ('k \<times> 'v) list" where
  "dict_del k ps = filter (\<lambda>p. fst p \<noteq> k) ps"

text \<open>
  The manager: its two limits that matter here, the memory tier, the Redis tier (\<open>None\<close>
  without a client) and the cache files by key, where \<open>Some None\<close> is a file that cannot
  be unpickled.  The hit and miss counters are left out.  Redis drops an entry by itself
  after \<open>max_age_hours\<close>; the model keeps it, and \<open>get\<close> rejects it as expired.
\<close>

record cache =
  max_age_hours :: int
  max_memory_items :: int
  memory_cache :: "(pystr \<times> cache_entry) list"
  redis :: "(pystr \<rightharpoonup> cache_entry) option"
  disk :: "pystr \<rightharpoonup> cache_entry option"

definition cache_init :: "int \<Rightarrow> int \<Rightarrow> bool \<Rightarrow> cache" where
  "cache_init age items with_redis =
     \<lparr> max_age_hours = age, max_memory_items = items, memory_cache = [],
       redis = (if with_redis then Some Map.empty else None), disk = Map.empty \<rparr>"

text \<open>
  What the environment does during one operation: whether the Redis calls and the
  accesses to the cache directory go through (they raise otherwise), and which cache
  files the size clean-up behind a \<open>set\<close> removes.
\<close>

record io =
  redis_up :: bool
  disk_up :: bool
  purged :: "pystr set"

text \<open>
  \<open>_evict_memory_cache\<close>: the items sorted by \<open>last_access\<close> (a stable sort), the first
  quarter of them, at least one, deleted.
\<close>

definition evict_memory_cache :: "(pystr \<times> cache_entry) list \<Rightarrow> (pystr \<times> cache_entry) list" where
  "evict_memory_cache mem =
     (if mem = [] then mem
      else
        let sorted_items = sort_key (\<lambda>x. last_access (snd x)) mem;
            remove_count = max 1 (length sorted_items div 4)
        in foldl (\<lambda>m k. dict_del k m) mem (map fst (take remove_count sorted_items)))"

definition valid_entry :: "cache \<Rightarrow> cache_entry \<Rightarrow> file_system \<Rightarrow> pystr \<Rightarrow> int \<Rightarrow> bool" where
  "valid_entry c entry fs file_path now \<longleftrightarrow>
     \<not> is_expired entry now (max_age_hours c) \<and> \<not> is_file_changed entry fs file_path"

definition touched :: "cache_entry \<Rightarrow> int \<Rightarrow> cache_entry" where
  "touched entry now = entry\<lparr>access_count := access_count entry + 1, last_access := now\<rparr>"

text \<open>
  Loading a hit from a lower tier into memory, when there is room; the entry in memory
  is the object whose access fields are updated right after.
\<close>

definition promote :: "cache \<Rightarrow> pystr \<Rightarrow> cache_entry \<Rightarrow> int \<Rightarrow> cache" where
  "promote c cache_key entry now =
     (if int (length (memory_cache c)) < max_memory_items c
      then c\<lparr>memory_cache := dict_set cache_key (touched entry now) (memory_cache c)\<rparr>
      else c)"

text \<open>The three stages of \<open>get\<close>, each handing on to the next on a miss.\<close>

definition get_disk :: "cache \<Rightarrow> io \<Rightarrow> file_system \<Rightarrow> pystr \<Rightarrow> pystr \<Rightarrow> int \<Rightarrow> pystr option \<times> cache" where
  "get_disk c env fs file_path cache_key now =
     (if \<not> disk_up env then (None, c)
      else
        (case disk c cache_key of
           None \<Rightarrow> (None, c)
         | Some None \<Rightarrow> (None, c\<lparr>disk := (disk c)(cache_key := None)\<rparr>)
         | Some (Some entry) \<Rightarrow>
             if valid_entry c entry fs file_path now
             then
               let c1 = promote c cache_key entry now;
                   c2 = (case redis c1 of
                           None \<Rightarrow> c1
                         | Some r \<Rightarrow> if redis_up env
                                     then c1\<lparr>redis := Some (r(cache_key \<mapsto> entry))\<rparr> else c1)
               in (Some (content entry), c2)
             else (None, c\<lparr>disk := (disk c)(cache_key := None)\<rparr>)))"

definition get_redis :: "cache \<Rightarrow> io \<Rightarrow> file_system \<Rightarrow> pystr \<Rightarrow> pystr \<Rightarrow> int \<Rightarrow> pystr option \<times> cache" where
  "get_redis c env fs file_path cache_key now =
     (case redis c of
        None \<Rightarrow> get_disk c env fs file_path cache_key now
      | Some r \<Rightarrow>
          if \<not> redis_up env then get_disk c env fs file_path cache_key now
          else
            (case r cache_key of
               None \<Rightarrow> get_disk c env fs file_path cache_key now
             | Some entry \<Rightarrow>
                 if valid_entry c entry fs file_path now
                 then (Some (content entry), promote c cache_key entry now)
                 else get_disk (c\<lparr>redis := Some (r(cache_key := None))\<rparr>)
                        env fs file_path cache_key now))"

definition cache_get ::
  "hashing \<Rightarrow> cache \<Rightarrow> io \<Rightarrow> file_system \<Rightarrow> pystr \<Rightarrow> pystr \<Rightarrow> int \<Rightarrow> pystr option \<times> cache" where
  "cache_get h c env fs file_path prefix now =
     (let cache_key = get_cache_key (get_file_hash h fs file_path) prefix
      in case map_of (memory_cache c) cache_key of
           None \<Rightarrow> get_redis c env fs file_path cache_key now
         | Some entry \<Rightarrow>
             if is_expired entry now (max_age_hours c) \<or> is_file_changed entry fs file_path
             then get_redis (c\<lparr>memory_cache := dict_del cache_key (memory_cache c)\<rparr>)
                    env fs file_path cache_key now
             else (Some (content entry),
                   c\<lparr>memory_cache := dict_set cache_key (touched entry now) (memory_cache c)\<rparr>))"

text \<open>
  \<open>set\<close>: \<open>os.stat\<close> raises when the file is not there, and the method returns \<open>False\<close>
  with nothing stored.
\<close>

definition cache_set ::
  "hashing \<Rightarrow> cache \<Rightarrow> io \<Rightarrow> file_system \<Rightarrow> pystr \<Rightarrow> pystr \<Rightarrow> pystr \<Rightarrow> int \<Rightarrow> bool \<times> cache" where
  "cache_set h c env fs file_path text prefix now =
     (case fs file_path of
        None \<Rightarrow> (False, c)
      | Some f \<Rightarrow>
          let hash = get_file_hash h fs file_path;
              cache_key = get_cache_key hash prefix;
              entry = \<lparr> content = text, file_hash = hash, file_size = st_size f,
                        file_mtime = st_mtime f, cache_time = now, access_count = 1,
                        last_access = now \<rparr>;
              mem = (if int (length (memory_cache c)) \<ge> max_memory_items c
                     then evict_memory_cache (memory_cache c) else memory_cache c);
              r = (case redis c of
                     None \<Rightarrow> None
                   | Some r \<Rightarrow> if redis_up env then Some (r(cache_key \<mapsto> entry)) else Some r);
              d = (if disk_up env then (disk c)(cache_key \<mapsto> Some entry) else disk c)
          in (True, c\<lparr>memory_cache := dict_set cache_key entry mem, redis := r,
                      disk := d |` (- purged env)\<rparr>))"

definition cache_clear :: "cache \<Rightarrow> io \<Rightarrow> cache" where
  "cache_clear c env =
     c\<lparr>memory_cache := [],
       redis := (case redis c of
                   None \<Rightarrow> None
                 | Some r \<Rightarrow> if redis_up env then Some Map.empty else Some r),
       disk := (if disk_up env then Map.empty else disk c)\<rparr>"

subsection \<open>Round trip and invalidation\<close>

lemma map_of_dict_set: "map_of (dict_set k v ps) k = Some v"
  by (induction ps) auto

lemma set_dict_set: "snd ` set (dict_set k v ps) \<subseteq> insert v (snd ` set ps)"
  by (induction ps) auto

lemma set_dict_del: "set (dict_del k ps) \<subseteq> set ps"
  by (auto simp: dict_del_def)

lemma foldl_dict_del: "foldl (\<lambda>m k. dict_del k m) ps ks = filter (\<lambda>p. fst p \<notin> set ks) ps"
proof (induction ks arbitrary: ps)
  case Nil show ?case by simp
next
  case (Cons k ks)
  have "filter (\<lambda>p. fst p \<notin> set ks) (dict_del k ps) = filter (\<lambda>p. fst p \<notin> set (k # ks)) ps"
    by (auto simp: dict_del_def intro: filter_cong)
  with Cons show ?case by simp
qed

lemma set_evict: "set (evict_memory_cache mem) \<subseteq> set mem"
  by (auto simp: evict_memory_cache_def foldl_dict_del Let_def)

text \<open>
  The entries that the tiers hold under one key, as far as a \<open>get\<close> in the given
  environment reaches them: the memory tier, Redis when there is a client and its calls
  go through, the cache directory when it can be read.
\<close>

definition held_under :: "cache \<Rightarrow> io \<Rightarrow> pystr \<Rightarrow> cache_entry list" where
  "held_under c env cache_key =
     (case map_of (memory_cache c) cache_key of None \<Rightarrow> [] | Some entry \<Rightarrow> [entry]) @
     (case redis c of
        None \<Rightarrow> []
      | Some r \<Rightarrow> if redis_up env
                  then (case r cache_key of None \<Rightarrow> [] | Some entry \<Rightarrow> [entry]) else []) @
     (if disk_up env
      then (case disk c cache_key of Some (Some entry) \<Rightarrow> [entry] | _ \<Rightarrow> []) else [])"

lemma held_under_all:
  "(\<forall>e \<in> set (held_under c env key). P e) \<longleftrightarrow>
     (\<forall>e. map_of (memory_cache c) key = Some e \<longrightarrow> P e) \<and>
     (\<forall>r e. redis c = Some r \<and> redis_up env \<and> r key = Some e \<longrightarrow> P e) \<and>
     (\<forall>e. disk_up env \<and> disk c key = Some (Some e) \<longrightarrow> P e)"
proof -
  have "(\<forall>e \<in> set (held_under c env key). P e) \<longleftrightarrow> list_all P (held_under c env key)"
    by (simp only: list_all_iff)
  also have "\<dots> \<longleftrightarrow>
     (\<forall>e. map_of (memory_cache c) key = Some e \<longrightarrow> P e) \<and>
     (\<forall>r e. redis c = Some r \<and> redis_up env \<and> r key = Some e \<longrightarrow> P e) \<and>
     (\<forall>e. disk_up env \<and> disk c key = Some (Some e) \<longrightarrow> P e)"
    unfolding held_under_def by (auto split: option.splits)
  finally show ?thesis .
qed

lemma held_underD:
  assumes "\<forall>e \<in> set (held_under c env key). P e"
  shows "map_of (memory_cache c) key = Some e \<Longrightarrow> P e"
    and "redis c = Some r \<Longrightarrow> redis_up env \<Longrightarrow> r key = Some e \<Longrightarrow> P e"
    and "disk_up env \<Longrightarrow> disk c key = Some (Some e) \<Longrightarrow> P e"
  using assms unfolding held_under_all by blast+

lemma get_disk_miss:
  assumes "\<And>e. disk_up env \<Longrightarrow> disk c key = Some (Some e) \<Longrightarrow> \<not> valid_entry c e fs p now"
  shows "fst (get_disk c env fs p key now) = None"
  using assms by (auto simp: get_disk_def split: option.splits)

lemma get_redis_miss:
  assumes d: "\<And>e. disk_up env \<Longrightarrow> disk c key = Some (Some e) \<Longrightarrow> \<not> valid_entry c e fs p now"
    and r: "\<And>r e. redis c = Some r \<Longrightarrow> redis_up env \<Longrightarrow> r key = Some e \<Longrightarrow>
              \<not> valid_entry c e fs p now"
  shows "fst (get_redis c env fs p key now) = None"
proof (cases "redis c")
  case None
  have "fst (get_disk c env fs p key now) = None" by (rule get_disk_miss) (rule d)
  with None show ?thesis by (simp add: get_redis_def)
next
  case (Some r0)
  have dm: "fst (get_disk c env fs p key now) = None" by (rule get_disk_miss) (rule d)
  show ?thesis
  proof (cases "redis_up env")
    case False
    with Some dm show ?thesis by (simp add: get_redis_def)
  next
    case True
    show ?thesis
    proof (cases "r0 key")
      case None
      with Some True dm show ?thesis
        by (simp add: get_redis_def)
    next
      case (Some e)
      with r[OF \<open>redis c = Some r0\<close> True] have nv: "\<not> valid_entry c e fs p now" by simp
      let ?c = "c\<lparr>redis := Some (r0(key := None))\<rparr>"
      have "fst (get_disk ?c env fs p key now) = None"
      proof (rule get_disk_miss)
        fix e' assume "disk_up env" "disk ?c key = Some (Some e')"
        with d[of e'] show "\<not> valid_entry ?c e' fs p now" by (simp add: valid_entry_def)
      qed
      with nv Some \<open>redis c = Some r0\<close> True show ?thesis by (simp add: get_redis_def)
    qed
  qed
qed

lemma cache_get_miss:
  assumes "\<forall>e \<in> set (held_under c env (get_cache_key (get_file_hash h fs p) prefix)).
             \<not> valid_entry c e fs p now"
  shows "fst (cache_get h c env fs p prefix now) = None"
proof -
  let ?key = "get_cache_key (get_file_hash h fs p) prefix"
  note hd = held_underD[OF assms]
  show ?thesis
  proof (cases "map_of (memory_cache c) ?key")
    case None
    have "fst (get_redis c env fs p ?key now) = None"
      by (rule get_redis_miss) (use hd(2,3) in blast)+
    with None show ?thesis by (simp add: cache_get_def)
  next
    case (Some e)
    with hd(1) have nv: "is_expired e now (max_age_hours c) \<or> is_file_changed e fs p"
      by (auto simp: valid_entry_def)
    let ?c = "c\<lparr>memory_cache := dict_del ?key (memory_cache c)\<rparr>"
    have "fst (get_redis ?c env fs p ?key now) = None"
    proof (rule get_redis_miss)
      fix e' assume "disk_up env" "disk ?c ?key = Some (Some e')"
      with hd(3)[of e'] show "\<not> valid_entry ?c e' fs p now" by (simp add: valid_entry_def)
    next
      fix r e' assume "redis ?c = Some r" "redis_up env" "r ?key = Some e'"
      with hd(2)[of r e'] show "\<not> valid_entry ?c e' fs p now" by (simp add: valid_entry_def)
    qed
    with Some nv show ?thesis by (simp add: cache_get_def Let_def)
  qed
qed

text \<open>The fields of the cache after a \<open>set\<close> for a file that is there.\<close>

definition new_entry :: "hashing \<Rightarrow> file_system \<Rightarrow> pystr \<Rightarrow> source_file \<Rightarrow> pystr \<Rightarrow> int \<Rightarrow> cache_entry" where
  "new_entry h fs p f text now =
     \<lparr> content = text, file_hash = get_file_hash h fs p, file_size = st_size f,
       file_mtime = st_mtime f, cache_time = now, access_count = 1, last_access = now \<rparr>"

definition room_made :: "cache \<Rightarrow> (pystr \<times> cache_entry) list" where
  "room_made c =
     (if int (length (memory_cache c)) \<ge> max_memory_items c
      then evict_memory_cache (memory_cache c) else memory_cache c)"

lemma cache_set_fields:
  assumes "fs p = Some f"
  shows "fst (cache_set h c env fs p text prefix now) = True"
    and "memory_cache (snd (cache_set h c env fs p text prefix now)) =
           dict_set (get_cache_key (get_file_hash h fs p) prefix) (new_entry h fs p f text now)
             (room_made c)"
    and "redis (snd (cache_set h c env fs p text prefix now)) =
           (case redis c of
              None \<Rightarrow> None
            | Some r \<Rightarrow> if redis_up env
                        then Some (r(get_cache_key (get_file_hash h fs p) prefix
                                      \<mapsto> new_entry h fs p f text now))
                        else Some r)"
    and "disk (snd (cache_set h c env fs p text prefix now)) =
           (if disk_up env
            then (disk c)(get_cache_key (get_file_hash h fs p) prefix
                            \<mapsto> Some (new_entry h fs p f text now))
            else disk c) |` (- purged env)"
    and "max_age_hours (snd (cache_set h c env fs p text prefix now)) = max_age_hours c"
    and "max_memory_items (snd (cache_set h c env fs p text prefix now)) = max_memory_items c"
  using assms by (simp_all add: cache_set_def Let_def new_entry_def room_made_def split: option.splits)

lemma map_of_dict_set_other: "k' \<noteq> k \<Longrightarrow> map_of (dict_set k v ps) k' = map_of ps k'"
  by (induction ps) auto

lemma map_of_filter_keys:
  "map_of (filter (\<lambda>p. fst p \<notin> S) ps) k = (if k \<in> S then None else map_of ps k)"
  by (induction ps) auto

lemma map_of_evict:
  assumes "map_of (evict_memory_cache mem) k = Some e"
  shows "map_of mem k = Some e"
proof (cases "mem = []")
  case True
  with assms show ?thesis by (simp add: evict_memory_cache_def)
next
  case False
  let ?ks = "map fst (take (max 1 (length mem div 4)) (sort_key (\<lambda>x. last_access (snd x)) mem))"
  have "evict_memory_cache mem = filter (\<lambda>p. fst p \<notin> set ?ks) mem"
    using False by (simp add: evict_memory_cache_def foldl_dict_del Let_def)
  with assms have "(if k \<in> set ?ks then None else map_of mem k) = Some e"
    by (simp only: map_of_filter_keys)
  then show ?thesis by (simp split: if_splits)
qed

lemma map_of_room_made:
  "map_of (room_made c) k = Some e \<Longrightarrow> map_of (memory_cache c) k = Some e"
  using map_of_evict[of "memory_cache c" k e] by (simp add: room_made_def split: if_splits)

text \<open>
  Under a key, the cache holds after a \<open>set\<close> only the new entry or what it held before
  under that key.
\<close>

lemma held_after_set:
  assumes "fs p = Some f"
    and old: "\<forall>e \<in> set (held_under c env' k). P e"
    and new: "P (new_entry h fs p f stored now)"
  shows "\<forall>e \<in> set (held_under (snd (cache_set h c env fs p stored prefix now)) env' k). P e"
proof -
  let ?c1 = "snd (cache_set h c env fs p stored prefix now)"
  let ?key = "get_cache_key (get_file_hash h fs p) prefix"
  let ?ne = "new_entry h fs p f stored now"
  note fl = cache_set_fields[where fs=fs and f=f, OF assms(1), of h c env stored prefix now]
  note o = held_underD[OF old]
  show ?thesis
    unfolding held_under_all
  proof (intro conjI allI impI)
    fix e assume mem: "map_of (memory_cache ?c1) k = Some e"
    show "P e"
    proof (cases "k = ?key")
      case True
      with mem have "e = ?ne" unfolding fl(2) by (simp add: map_of_dict_set)
      with new show ?thesis by simp
    next
      case False
      with mem have "map_of (room_made c) k = Some e"
        unfolding fl(2) by (simp add: map_of_dict_set_other)
      then have "map_of (memory_cache c) k = Some e" by (rule map_of_room_made)
      then show ?thesis by (rule o(1))
    qed
  next
    fix r e assume red: "redis ?c1 = Some r \<and> redis_up env' \<and> r k = Some e"
    then obtain r0 where r0: "redis c = Some r0" and
      rr: "r = (if redis_up env then r0(?key \<mapsto> ?ne) else r0)"
      unfolding fl(3) by (auto split: option.splits if_splits)
    from red rr have "e = ?ne \<or> r0 k = Some e" by (auto split: if_splits)
    then show "P e"
    proof
      assume "e = ?ne" with new show ?thesis by simp
    next
      assume "r0 k = Some e"
      with r0 red show ?thesis using o(2)[of r0 e] by blast
    qed
  next
    fix e assume dsk: "disk_up env' \<and> disk ?c1 k = Some (Some e)"
    then have "e = ?ne \<or> disk c k = Some (Some e)"
      unfolding fl(4) by (auto simp: restrict_map_def split: if_splits)
    then show "P e"
    proof
      assume "e = ?ne" with new show ?thesis by simp
    next
      assume "disk c k = Some (Some e)"
      with dsk show ?thesis using o(3)[of e] by blast
    qed
  qed
qed

lemma set_then_get_hit:
  assumes "fs file_path = Some f" and "fs' file_path = Some f'"
    and "get_file_hash h fs' file_path = get_file_hash h fs file_path"
    and "st_size f' = st_size f" and "st_mtime f' = st_mtime f"
    and "now' - now \<le> max_age_hours c * 3600"
  shows "fst (cache_get h (snd (cache_set h c env fs file_path stored prefix now))
                env' fs' file_path prefix now') = Some stored"
proof -
  let ?c1 = "snd (cache_set h c env fs file_path stored prefix now)"
  let ?key = "get_cache_key (get_file_hash h fs file_path) prefix"
  let ?ne = "new_entry h fs file_path f stored now"
  note fl = cache_set_fields[where fs=fs and f=f, OF assms(1), of h c env stored prefix now]
  have k: "get_cache_key (get_file_hash h fs' file_path) prefix = ?key"
    using assms(3) by simp
  have m: "map_of (memory_cache ?c1) ?key = Some ?ne"
    unfolding fl(2) by (rule map_of_dict_set)
  have ne: "\<not> is_expired ?ne now' (max_age_hours ?c1)"
    unfolding fl(5) using assms(6) by (simp add: is_expired_def new_entry_def)
  have nc: "\<not> is_file_changed ?ne fs' file_path"
    using assms(2,4,5) by (simp add: is_file_changed_def new_entry_def)
  have ct: "content ?ne = stored" by (simp add: new_entry_def)
  have "cache_get h ?c1 env' fs' file_path prefix now' =
          (Some (content ?ne),
           ?c1\<lparr>memory_cache := dict_set ?key (touched ?ne now') (memory_cache ?c1)\<rparr>)"
    unfolding cache_get_def k Let_def m using ne nc by simp
  then show ?thesis using ct by simp
qed

lemma set_then_get_miss:
  assumes "fs file_path = Some f"
    and "case fs'' file_path of
             None \<Rightarrow> True
           | Some f' \<Rightarrow> st_size f' \<noteq> st_size f \<or> st_mtime f' \<noteq> st_mtime f"
    and "\<forall>e \<in> set (held_under c env' (get_cache_key (get_file_hash h fs'' file_path) prefix)).
           \<not> valid_entry c e fs'' file_path now'"
  shows "fst (cache_get h (snd (cache_set h c env fs file_path stored prefix now))
                env' fs'' file_path prefix now') = None"
proof (rule cache_get_miss)
  let ?c1 = "snd (cache_set h c env fs file_path stored prefix now)"
  let ?k = "get_cache_key (get_file_hash h fs'' file_path) prefix"
  let ?ne = "new_entry h fs file_path f stored now"
  note fl = cache_set_fields[where fs=fs and f=f, OF assms(1), of h c env stored prefix now]
  have v: "valid_entry ?c1 e fs'' file_path now' = valid_entry c e fs'' file_path now'" for e
    unfolding valid_entry_def fl(5) ..
  have n: "is_file_changed ?ne fs'' file_path"
    using assms(2) by (simp add: is_file_changed_def new_entry_def split: option.splits)
  then have nn: "\<not> valid_entry c ?ne fs'' file_path now'" by (simp add: valid_entry_def)
  show "\<forall>e \<in> set (held_under ?c1 env' ?k). \<not> valid_entry ?c1 e fs'' file_path now'"
    unfolding v by (rule held_after_set[where fs=fs and f=f, OF assms(1) assms(3) nn])
qed

text \<open>
  C6 (as amended).  A \<open>set\<close> for a file that is there succeeds.  A \<open>get\<close> that follows it
  and finds the file with the same digest, size and modification time, at most
  \<open>max_age_hours\<close> later, returns exactly the content that was set.  A \<open>get\<close> that finds
  the file gone, or with another size or modification time, returns \<open>None\<close>, provided that
  none of the entries which the cache held before the \<open>set\<close> under the key of this \<open>get\<close>
  (the key of the file's state at the \<open>get\<close>) is still valid for that state.
\<close>

theorem cache_round_trip:
  assumes "fs file_path = Some f"
  shows "fst (cache_set h c env fs file_path stored prefix now) = True \<and>
         (fs' file_path = Some f' \<and>
          get_file_hash h fs' file_path = get_file_hash h fs file_path \<and>
          st_size f' = st_size f \<and> st_mtime f' = st_mtime f \<and>
          now' - now \<le> max_age_hours c * 3600 \<longrightarrow>
            fst (cache_get h (snd (cache_set h c env fs file_path stored prefix now))
                   env' fs' file_path prefix now') = Some stored) \<and>
         ((case fs'' file_path of
             None \<Rightarrow> True
           | Some f'' \<Rightarrow> st_size f'' \<noteq> st_size f \<or> st_mtime f'' \<noteq> st_mtime f) \<and>
          (\<forall>e \<in> set (held_under c env''
                        (get_cache_key (get_file_hash h fs'' file_path) prefix)).
             \<not> valid_entry c e fs'' file_path now'') \<longrightarrow>
            fst (cache_get h (snd (cache_set h c env fs file_path stored prefix now))
                   env'' fs'' file_path prefix now'') = None)"
proof (intro conjI impI)
  show "fst (cache_set h c env fs file_path stored prefix now) = True"
    by (rule cache_set_fields(1)[where fs=fs and f=f, OF assms])
next
  assume a: "fs' file_path = Some f' \<and>
          get_file_hash h fs' file_path = get_file_hash h fs file_path \<and>
          st_size f' = st_size f \<and> st_mtime f' = st_mtime f \<and>
          now' - now \<le> max_age_hours c * 3600"
  then have a1: "fs' file_path = Some f'"
    and a2: "get_file_hash h fs' file_path = get_file_hash h fs file_path"
    and a3: "st_size f' = st_size f" and a4: "st_mtime f' = st_mtime f"
    and a5: "now' - now \<le> max_age_hours c * 3600" by simp_all
  show "fst (cache_get h (snd (cache_set h c env fs file_path stored prefix now))
                   env' fs' file_path prefix now') = Some stored"
    by (rule set_then_get_hit[where fs=fs and fs'=fs' and f=f and f'=f', OF assms a1 a2 a3 a4 a5])
next
  assume b: "(case fs'' file_path of
             None \<Rightarrow> True
           | Some f'' \<Rightarrow> st_size f'' \<noteq> st_size f \<or> st_mtime f'' \<noteq> st_mtime f) \<and>
          (\<forall>e \<in> set (held_under c env''
                        (get_cache_key (get_file_hash h fs'' file_path) prefix)).
             \<not> valid_entry c e fs'' file_path now'')"
  show "fst (cache_get h (snd (cache_set h c env fs file_path stored prefix now))
                   env'' fs'' file_path prefix now'') = None"
    by (rule set_then_get_miss[where fs=fs and fs''=fs'' and f=f,
          OF assms conjunct1[OF b] conjunct2[OF b]])
qed

text \<open>
  A concrete setting: a digest that tells all byte strings apart, an environment in which
  every call goes through, a fresh cache with the default limits and no Redis, and three
  states of the file at path \<open>f\<close>: one byte, another byte with the same modification
  time, and two bytes at a later time.
\<close>

definition plain_hashing :: hashing where
  "plain_hashing = \<lparr> md5_hex = (\<lambda>b. b), utf8 = (\<lambda>s. s), str_float = str_int \<rparr>"

definition quiet_io :: io where
  "quiet_io = \<lparr> redis_up = True, disk_up = True, purged = {} \<rparr>"

definition fresh_cache :: cache where
  "fresh_cache = cache_init 24 100 False"

definition file_v1 :: source_file where
  "file_v1 = \<lparr> data = [1], st_mtime = 1, readable = True \<rparr>"

definition file_v2 :: source_file where
  "file_v2 = \<lparr> data = [2], st_mtime = 1, readable = True \<rparr>"

definition file_v3 :: source_file where
  "file_v3 = \<lparr> data = [3, 3], st_mtime = 2, readable = True \<rparr>"

definition fs_with :: "source_file \<Rightarrow> file_system" where
  "fs_with f = (\<lambda>p. if p = asc ''f'' then Some f else None)"

definition cache_v1 :: cache where
  "cache_v1 = snd (cache_set plain_hashing fresh_cache quiet_io (fs_with file_v1) (asc ''f'')
                     (asc ''one'') [] 0)"

definition cache_v3 :: cache where
  "cache_v3 = snd (cache_set plain_hashing cache_v1 quiet_io (fs_with file_v3) (asc ''f'')
                     (asc ''three'') [] 1)"

text \<open>
  A fourth state of the file: the bytes of the first state, touched at a later time.  And
  the entry that the \<open>set\<close> for the first state stored.
\<close>

definition file_v4 :: source_file where
  "file_v4 = \<lparr> data = [1], st_mtime = 5, readable = True \<rparr>"

definition entry_v1 :: cache_entry where
  "entry_v1 = \<lparr> content = asc ''one'', file_hash = [1], file_size = 1, file_mtime = 1,
                cache_time = 0, access_count = 1, last_access = 0 \<rparr>"

lemma cache_v1_fields:
  "memory_cache cache_v1 =
     [([1], \<lparr> content = asc ''one'', file_hash = [1], file_size = 1, file_mtime = 1,
              cache_time = 0, access_count = 1, last_access = 0 \<rparr>)]"
  "redis cache_v1 = None"
  "max_age_hours cache_v1 = 24" "max_memory_items cache_v1 = 100"
  by (simp_all add: cache_v1_def cache_set_def fresh_cache_def cache_init_def plain_hashing_def
      quiet_io_def fs_with_def file_v1_def get_file_hash_def get_cache_key_def st_size_def Let_def)

lemma cache_v3_fields:
  "memory_cache cache_v3 =
     [([1], \<lparr> content = asc ''one'', file_hash = [1], file_size = 1, file_mtime = 1,
              cache_time = 0, access_count = 1, last_access = 0 \<rparr>),
      ([3, 3], \<lparr> content = asc ''three'', file_hash = [3, 3], file_size = 2, file_mtime = 2,
              cache_time = 1, access_count = 1, last_access = 1 \<rparr>)]"
  "max_age_hours cache_v3 = 24"
  by (simp_all add: cache_v3_def cache_set_def cache_v1_fields plain_hashing_def
      quiet_io_def fs_with_def file_v3_def get_file_hash_def get_cache_key_def st_size_def Let_def)

lemma cache_v1_held:
  "held_under cache_v1 quiet_io
     (get_cache_key (get_file_hash plain_hashing (fs_with file_v4) (asc ''f'')) [])
     = [entry_v1, entry_v1]"
  by (simp add: held_under_def cache_v1_def cache_set_def fresh_cache_def cache_init_def
      plain_hashing_def quiet_io_def fs_with_def file_v1_def file_v4_def get_file_hash_def
      get_cache_key_def st_size_def Let_def entry_v1_def)

text \<open>
  The cache that holds the entry for the first state; on it a \<open>set\<close> for the third state
  at time 1.  A \<open>get\<close> for the third state at time 2 returns the content.  A \<open>get\<close> for
  the fourth state at time 6 looks under the key of the first state, where the memory tier
  and the cache directory hold the entry of the first state, which is not valid for the
  fourth state: a miss.
\<close>

theorem cache_round_trip_witness:
  "fs_with file_v3 (asc ''f'') = Some file_v3 \<and>
   (2::int) - 1 \<le> max_age_hours cache_v1 * 3600 \<and>
   fst (cache_get plain_hashing cache_v3 quiet_io (fs_with file_v3) (asc ''f'') [] 2)
     = Some (asc ''three'') \<and>
   st_size file_v4 \<noteq> st_size file_v3 \<and>
   held_under cache_v1 quiet_io
     (get_cache_key (get_file_hash plain_hashing (fs_with file_v4) (asc ''f'')) [])
     = [entry_v1, entry_v1] \<and>
   \<not> valid_entry cache_v1 entry_v1 (fs_with file_v4) (asc ''f'') 6 \<and>
   fst (cache_get plain_hashing cache_v3 quiet_io (fs_with file_v4) (asc ''f'') [] 6) = None"
proof -
  have h: "fs_with file_v3 (asc ''f'') = Some file_v3" by (simp add: fs_with_def)
  note t = cache_round_trip[where fs="fs_with file_v3" and file_path="asc ''f''"
      and f=file_v3 and h=plain_hashing and c=cache_v1 and env=quiet_io
      and stored="asc ''three''" and prefix="[]" and now=1 and fs'="fs_with file_v3"
      and f'=file_v3 and now'=2 and env'=quiet_io and fs''="fs_with file_v4"
      and env''=quiet_io and now''=6, OF h]
  have age: "(2::int) - 1 \<le> max_age_hours cache_v1 * 3600"
    by (simp add: cache_v1_fields)
  have a: "fst (cache_get plain_hashing cache_v3 quiet_io (fs_with file_v3) (asc ''f'') [] 2)
     = Some (asc ''three'')"
    unfolding cache_v3_def using t h age by blast
  have sz: "st_size file_v4 \<noteq> st_size file_v3"
    by (simp add: st_size_def file_v3_def file_v4_def)
  have f4: "fs_with file_v4 (asc ''f'') = Some file_v4" by (simp add: fs_with_def)
  have nv: "\<not> valid_entry cache_v1 entry_v1 (fs_with file_v4) (asc ''f'') 6"
    by (simp add: valid_entry_def is_file_changed_def fs_with_def file_v4_def entry_v1_def)
  have pr: "\<forall>e \<in> set (held_under cache_v1 quiet_io
              (get_cache_key (get_file_hash plain_hashing (fs_with file_v4) (asc ''f'')) [])).
             \<not> valid_entry cache_v1 e (fs_with file_v4) (asc ''f'') 6"
    unfolding cache_v1_held using nv by simp
  have ch: "case fs_with file_v4 (asc ''f'') of
             None \<Rightarrow> True
           | Some f'' \<Rightarrow> st_size f'' \<noteq> st_size file_v3 \<or> st_mtime f'' \<noteq> st_mtime file_v3"
    unfolding f4 using sz by simp
  have b: "fst (cache_get plain_hashing cache_v3 quiet_io (fs_with file_v4) (asc ''f'') [] 6) = None"
    unfolding cache_v3_def using t ch pr by blast
  from h age a sz cache_v1_held nv b show ?thesis by (intro conjI)
qed

text \<open>
  After the \<open>set\<close> for the first state, a \<open>get\<close> for the second state, with the size and
  the modification time unchanged and one second later, is a miss: the other bytes
  give another key.  After a further \<open>set\<close> for the third state, a \<open>get\<close> for the file
  back in its first state, so with another size and time than at that \<open>set\<close>, returns
  the content stored for the first state.
\<close>

theorem cache_round_trip_counterexample:
  "st_size file_v2 = st_size file_v1 \<and> st_mtime file_v2 = st_mtime file_v1 \<and>
   fst (cache_get plain_hashing cache_v1 quiet_io (fs_with file_v2) (asc ''f'') [] 1) = None \<and>
   st_size file_v1 \<noteq> st_size file_v3 \<and>
   fst (cache_get plain_hashing cache_v3 quiet_io (fs_with file_v1) (asc ''f'') [] 2)
     = Some (asc ''one'')"
proof -
  have a: "st_size file_v2 = st_size file_v1 \<and> st_mtime file_v2 = st_mtime file_v1"
    by (simp add: st_size_def file_v1_def file_v2_def)
  have b: "fst (cache_get plain_hashing cache_v1 quiet_io (fs_with file_v2) (asc ''f'') [] 1) = None"
    by (simp add: cache_get_def get_redis_def get_disk_def cache_v1_fields plain_hashing_def
        quiet_io_def fs_with_def file_v2_def get_file_hash_def get_cache_key_def st_size_def
        Let_def cache_v1_def cache_set_def fresh_cache_def cache_init_def file_v1_def)
  have c: "st_size file_v1 \<noteq> st_size file_v3"
    by (simp add: st_size_def file_v1_def file_v3_def)
  have d: "fst (cache_get plain_hashing cache_v3 quiet_io (fs_with file_v1) (asc ''f'') [] 2)
     = Some (asc ''one'')"
    by (simp add: cache_get_def cache_v3_fields plain_hashing_def fs_with_def file_v1_def
        get_file_hash_def get_cache_key_def st_size_def Let_def is_expired_def
        is_file_changed_def)
  from a b c d show ?thesis by blast
qed

subsection \<open>The size of the memory tier\<close>

lemma keys_dict_set: "fst ` set (dict_set k v ps) = insert k (fst ` set ps)"
  by (induction ps) auto

lemma length_dict_set:
  "length (dict_set k v ps) = (if k \<in> fst ` set ps then length ps else Suc (length ps))"
  by (induction ps) auto

lemma distinct_dict_set: "distinct (map fst ps) \<Longrightarrow> distinct (map fst (dict_set k v ps))"
proof (induction ps)
  case Nil then show ?case by simp
next
  case (Cons p ps)
  then show ?case using keys_dict_set[of k v ps] by (auto simp: image_iff)
qed

lemma distinct_dict_del: "distinct (map fst ps) \<Longrightarrow> distinct (map fst (dict_del k ps))"
  by (simp add: dict_del_def distinct_map_filter)

lemma length_dict_del:
  assumes "k \<in> fst ` set ps"
  shows "length (dict_del k ps) < length ps"
proof -
  from assms obtain b where "(k, b) \<in> set ps" by auto
  then show ?thesis
    unfolding dict_del_def by (intro length_filter_less[of "(k, b)" ps]) simp_all
qed

text \<open>The number of items \<open>_evict_memory_cache\<close> removes from a non-empty dictionary.\<close>

definition remove_count :: "(pystr \<times> cache_entry) list \<Rightarrow> nat" where
  "remove_count mem = max 1 (length mem div 4)"

lemma evict_as_filter:
  assumes "mem \<noteq> []" and "distinct (map fst mem)"
  shows "evict_memory_cache mem =
           filter (\<lambda>p. p \<notin> set (take (remove_count mem) (sort_key (\<lambda>x. last_access (snd x)) mem))) mem"
proof -
  let ?S = "sort_key (\<lambda>x. last_access (snd x)) mem"
  let ?T = "take (remove_count mem) ?S"
  have sub: "set ?T \<subseteq> set mem" using set_take_subset[of "remove_count mem" ?S] by auto
  have "fst p \<notin> set (map fst ?T) \<longleftrightarrow> p \<notin> set ?T" if "p \<in> set mem" for p
  proof
    assume "fst p \<notin> set (map fst ?T)" then show "p \<notin> set ?T" by auto
  next
    assume n: "p \<notin> set ?T"
    show "fst p \<notin> set (map fst ?T)"
    proof
      assume "fst p \<in> set (map fst ?T)"
      then obtain q where q: "q \<in> set ?T" "fst q = fst p" by auto
      with sub have "q \<in> set mem" by auto
      with that q(2) assms(2) have "q = p" by (metis eq_key_imp_eq_value prod.collapse)
      with q(1) n show False by simp
    qed
  qed
  then have "filter (\<lambda>p. fst p \<notin> set (map fst ?T)) mem = filter (\<lambda>p. p \<notin> set ?T) mem"
    by (intro filter_cong) auto
  with assms(1) show ?thesis
    by (simp add: evict_memory_cache_def foldl_dict_del Let_def remove_count_def)
qed

lemma length_evict:
  assumes "mem \<noteq> []" and "distinct (map fst mem)"
  shows "length (evict_memory_cache mem) = length mem - remove_count mem"
proof -
  let ?S = "sort_key (\<lambda>x. last_access (snd x)) mem"
  let ?rc = "remove_count mem"
  let ?P = "\<lambda>p. p \<notin> set (take ?rc ?S)"
  have dm: "distinct mem" using assms(2) by (simp add: distinct_map)
  then have dS: "distinct ?S" by simp
  have "length (filter ?P mem) = size (filter_mset ?P (mset mem))"
    by (metis mset_filter size_mset)
  also have "\<dots> = size (filter_mset ?P (mset ?S))" by simp
  also have "\<dots> = length (filter ?P ?S)" by (metis mset_filter size_mset)
  also have "filter ?P ?S = filter ?P (take ?rc ?S) @ filter ?P (drop ?rc ?S)"
    by (metis append_take_drop_id filter_append)
  also have "filter ?P (take ?rc ?S) = []" by (simp add: filter_empty_conv)
  also have "filter ?P (drop ?rc ?S) = drop ?rc ?S"
  proof (rule filter_True, rule ballI)
    fix p assume "p \<in> set (drop ?rc ?S)"
    with dS show "p \<notin> set (take ?rc ?S)"
      by (metis append_take_drop_id distinct_append disjoint_iff)
  qed
  finally have "length (filter ?P mem) = length (drop ?rc ?S)" by simp
  then show ?thesis by (simp add: evict_as_filter[OF assms])
qed

lemma evict_least_recent:
  assumes "mem \<noteq> []" and "distinct (map fst mem)"
    and "p \<in> set mem" and "p \<notin> set (evict_memory_cache mem)"
    and "q \<in> set (evict_memory_cache mem)"
  shows "last_access (snd p) \<le> last_access (snd q)"
proof -
  let ?f = "\<lambda>x::pystr \<times> cache_entry. last_access (snd x)"
  let ?S = "sort_key ?f mem"
  let ?rc = "remove_count mem"
  from assms(3,4) have p: "p \<in> set (take ?rc ?S)" by (simp add: evict_as_filter[OF assms(1,2)])
  from assms(5) have "q \<in> set mem" "q \<notin> set (take ?rc ?S)"
    by (simp_all add: evict_as_filter[OF assms(1,2)])
  then have "q \<in> set (take ?rc ?S @ drop ?rc ?S)" by simp
  with \<open>q \<notin> set (take ?rc ?S)\<close> have q: "q \<in> set (drop ?rc ?S)" by (simp only: set_append) blast
  have "sorted (map ?f (take ?rc ?S @ drop ?rc ?S))" by simp
  then have "\<forall>x \<in> set (map ?f (take ?rc ?S)). \<forall>y \<in> set (map ?f (drop ?rc ?S)). x \<le> y"
    unfolding map_append sorted_append by blast
  with p q show ?thesis by auto
qed

text \<open>
  The invariant of the memory tier: no more than \<open>max_memory_items\<close> items, under
  pairwise different keys (it is a dictionary).
\<close>

definition mem_ok :: "cache \<Rightarrow> bool" where
  "mem_ok c \<longleftrightarrow>
     int (length (memory_cache c)) \<le> max_memory_items c \<and> distinct (map fst (memory_cache c))"

text \<open>
  What one stage of \<open>get\<close> may do to the memory tier: keep the limit, keep the invariant,
  add at most one item, and add one only when the tier was below its limit.
\<close>

definition step_ok :: "cache \<Rightarrow> cache \<Rightarrow> bool" where
  "step_ok c c' \<longleftrightarrow>
     max_memory_items c' = max_memory_items c \<and> mem_ok c' \<and>
     length (memory_cache c') \<le> Suc (length (memory_cache c)) \<and>
     (length (memory_cache c') > length (memory_cache c) \<longrightarrow>
        int (length (memory_cache c)) < max_memory_items c)"

lemma promote_ok: "mem_ok c \<Longrightarrow> step_ok c (promote c k e now)"
  using length_dict_set[of k "touched e now" "memory_cache c"]
    distinct_dict_set[of "memory_cache c" k "touched e now"]
  by (auto simp: step_ok_def mem_ok_def promote_def split: if_splits)

lemma step_ok_refl: "mem_ok c \<Longrightarrow> step_ok c c"
  by (simp add: step_ok_def)

lemma step_ok_fields:
  "step_ok c c1 \<Longrightarrow> memory_cache c2 = memory_cache c1 \<Longrightarrow>
   max_memory_items c2 = max_memory_items c1 \<Longrightarrow> step_ok c c2"
  by (simp add: step_ok_def mem_ok_def)

lemma get_disk_ok:
  assumes "mem_ok c"
  shows "step_ok c (snd (get_disk c env fs p key now))"
proof -
  have a: "step_ok c (c\<lparr>disk := d\<rparr>)" for d
    using step_ok_refl[OF assms] by (rule step_ok_fields) simp_all
  have b: "step_ok c ((promote c key e now)\<lparr>redis := r\<rparr>)" for e r
    using promote_ok[OF assms] by (rule step_ok_fields) simp_all
  show ?thesis
    using a b step_ok_refl[OF assms] promote_ok[OF assms]
    by (auto simp: get_disk_def Let_def split: option.splits)
qed

lemma get_redis_ok:
  assumes "mem_ok c"
  shows "step_ok c (snd (get_redis c env fs p key now))"
proof -
  have a: "step_ok c (snd (get_disk (c\<lparr>redis := r\<rparr>) env fs p key now))" for r
  proof -
    have "mem_ok (c\<lparr>redis := r\<rparr>)" using assms by (simp add: mem_ok_def)
    from get_disk_ok[OF this, of env fs p key now] show ?thesis
      by (simp add: step_ok_def mem_ok_def)
  qed
  show ?thesis
    using a get_disk_ok[OF assms] promote_ok[OF assms]
    by (auto simp: get_redis_def split: option.splits)
qed

lemma cache_get_ok:
  assumes "mem_ok c"
  shows "step_ok c (snd (cache_get h c env fs p prefix now))"
proof -
  let ?key = "get_cache_key (get_file_hash h fs p) prefix"
  show ?thesis
  proof (cases "map_of (memory_cache c) ?key")
    case None
    with get_redis_ok[OF assms] show ?thesis by (simp add: cache_get_def Let_def)
  next
    case (Some e)
    then have kin: "?key \<in> fst ` set (memory_cache c)"
      by (metis domI dom_map_of_conv_image_fst)
    show ?thesis
    proof (cases "is_expired e now (max_age_hours c) \<or> is_file_changed e fs p")
      case True
      let ?c1 = "c\<lparr>memory_cache := dict_del ?key (memory_cache c)\<rparr>"
      have l: "length (memory_cache ?c1) < length (memory_cache c)"
        using length_dict_del[OF kin] by simp
      have "mem_ok ?c1" using assms l distinct_dict_del[of "memory_cache c" ?key]
        by (simp add: mem_ok_def)
      from get_redis_ok[OF this, of env fs p ?key now] l
      have "step_ok c (snd (get_redis ?c1 env fs p ?key now))"
        by (simp add: step_ok_def)
      with Some True show ?thesis by (simp add: cache_get_def Let_def)
    next
      case False
      let ?c1 = "c\<lparr>memory_cache := dict_set ?key (touched e now) (memory_cache c)\<rparr>"
      have "step_ok c ?c1"
        using assms kin length_dict_set[of ?key "touched e now" "memory_cache c"]
          distinct_dict_set[of "memory_cache c" ?key "touched e now"]
        by (simp add: step_ok_def mem_ok_def)
      with Some False show ?thesis by (simp add: cache_get_def Let_def)
    qed
  qed
qed

lemma room_made_ok:
  assumes "1 \<le> max_memory_items c" and "mem_ok c"
  shows "int (length (room_made c)) < max_memory_items c \<and> distinct (map fst (room_made c))"
proof (cases "int (length (memory_cache c)) \<ge> max_memory_items c")
  case True
  with assms(1) have ne: "memory_cache c \<noteq> []" by auto
  have d: "distinct (map fst (memory_cache c))" using assms(2) by (simp add: mem_ok_def)
  have "remove_count (memory_cache c) \<ge> 1" by (simp add: remove_count_def)
  with length_evict[OF ne d] ne
  have "length (evict_memory_cache (memory_cache c)) < length (memory_cache c)"
    by (cases "memory_cache c") auto
  moreover have "distinct (map fst (evict_memory_cache (memory_cache c)))"
    using d by (simp add: evict_as_filter[OF ne d] distinct_map_filter)
  ultimately show ?thesis using True assms(2) by (simp add: room_made_def mem_ok_def)
next
  case False
  with assms(2) show ?thesis by (simp add: room_made_def mem_ok_def)
qed

lemma cache_set_ok:
  assumes "1 \<le> max_memory_items c" and "mem_ok c"
  shows "mem_ok (snd (cache_set h c env fs p stored prefix now)) \<and>
         max_memory_items (snd (cache_set h c env fs p stored prefix now)) = max_memory_items c"
proof (cases "fs p")
  case None
  with assms(2) show ?thesis by (simp add: cache_set_def)
next
  case (Some f)
  note fl = cache_set_fields[where fs=fs and f=f, OF Some, of h c env stored prefix now]
  let ?key = "get_cache_key (get_file_hash h fs p) prefix"
  let ?ne = "new_entry h fs p f stored now"
  from room_made_ok[OF assms] length_dict_set[of ?key ?ne "room_made c"]
    distinct_dict_set[of "room_made c" ?key ?ne]
  show ?thesis unfolding mem_ok_def fl(2) fl(6) by (auto split: if_splits)
qed

text \<open>
  With a limit of at least one item, every cache operation keeps the memory tier within
  \<open>max_memory_items\<close>: a fresh cache is within the limit, and \<open>get\<close>, \<open>set\<close> and \<open>clear\<close>
  keep it so.  \<open>get\<close> adds an item only when the tier was strictly below the limit.  A
  \<open>set\<close> that finds the tier at the limit first evicts a quarter of the items, at least
  one, none of them accessed more recently than any item that stays, and then inserts.
\<close>

lemma memory_bounded_from_one:
  assumes "1 \<le> max_memory_items c" and "mem_ok c"
  shows "mem_ok (cache_init age (max_memory_items c) with_redis) \<and>
         mem_ok (snd (cache_get h c env fs file_path prefix now)) \<and>
         max_memory_items (snd (cache_get h c env fs file_path prefix now)) = max_memory_items c \<and>
         (length (memory_cache (snd (cache_get h c env fs file_path prefix now)))
            > length (memory_cache c) \<longrightarrow>
          int (length (memory_cache c)) < max_memory_items c) \<and>
         mem_ok (snd (cache_set h c env fs file_path stored prefix now)) \<and>
         max_memory_items (snd (cache_set h c env fs file_path stored prefix now))
           = max_memory_items c \<and>
         mem_ok (cache_clear c env) \<and>
         (max_memory_items c \<le> int (length (memory_cache c)) \<and> fs file_path = Some f \<longrightarrow>
            memory_cache (snd (cache_set h c env fs file_path stored prefix now)) =
              dict_set (get_cache_key (get_file_hash h fs file_path) prefix)
                (new_entry h fs file_path f stored now) (evict_memory_cache (memory_cache c)) \<and>
            length (evict_memory_cache (memory_cache c)) =
              length (memory_cache c) - max 1 (length (memory_cache c) div 4) \<and>
            (\<forall>x \<in> set (memory_cache c). \<forall>y \<in> set (evict_memory_cache (memory_cache c)).
               x \<notin> set (evict_memory_cache (memory_cache c)) \<longrightarrow>
               last_access (snd x) \<le> last_access (snd y)))"
proof (intro conjI impI ballI)
  show "mem_ok (cache_init age (max_memory_items c) with_redis)"
    using assms(1) by (simp add: mem_ok_def cache_init_def)
  note g = cache_get_ok[OF assms(2), of h env fs file_path prefix now]
  show "mem_ok (snd (cache_get h c env fs file_path prefix now))"
    using g by (simp add: step_ok_def)
  show "max_memory_items (snd (cache_get h c env fs file_path prefix now)) = max_memory_items c"
    using g by (simp add: step_ok_def)
  show "mem_ok (snd (cache_set h c env fs file_path stored prefix now))"
    using cache_set_ok[OF assms] by blast
  show "max_memory_items (snd (cache_set h c env fs file_path stored prefix now))
           = max_memory_items c"
    using cache_set_ok[OF assms] by blast
  show "mem_ok (cache_clear c env)"
    using assms(1) by (simp add: mem_ok_def cache_clear_def)
next
  assume "length (memory_cache c)
            < length (memory_cache (snd (cache_get h c env fs file_path prefix now)))"
  with cache_get_ok[OF assms(2), of h env fs file_path prefix now]
  show "int (length (memory_cache c)) < max_memory_items c"
    by (simp add: step_ok_def)
next
  assume a: "max_memory_items c \<le> int (length (memory_cache c)) \<and> fs file_path = Some f"
  then have s: "fs file_path = Some f" by simp
  from a show "memory_cache (snd (cache_set h c env fs file_path stored prefix now)) =
              dict_set (get_cache_key (get_file_hash h fs file_path) prefix)
                (new_entry h fs file_path f stored now) (evict_memory_cache (memory_cache c))"
    by (simp add: cache_set_fields(2)[where fs=fs and f=f, OF s] room_made_def)
next
  assume a: "max_memory_items c \<le> int (length (memory_cache c)) \<and> fs file_path = Some f"
  with assms(1) have ne: "memory_cache c \<noteq> []" by auto
  have d: "distinct (map fst (memory_cache c))" using assms(2) by (simp add: mem_ok_def)
  show "length (evict_memory_cache (memory_cache c)) =
              length (memory_cache c) - max 1 (length (memory_cache c) div 4)"
    using length_evict[OF ne d] by (simp add: remove_count_def)
next
  fix x y
  assume a: "max_memory_items c \<le> int (length (memory_cache c)) \<and> fs file_path = Some f"
    and x: "x \<in> set (memory_cache c)" and y: "y \<in> set (evict_memory_cache (memory_cache c))"
    and n: "x \<notin> set (evict_memory_cache (memory_cache c))"
  from a assms(1) have ne: "memory_cache c \<noteq> []" by auto
  have d: "distinct (map fst (memory_cache c))" using assms(2) by (simp add: mem_ok_def)
  show "last_access (snd x) \<le> last_access (snd y)"
    by (rule evict_least_recent[OF ne d x n y])
qed

text \<open>
  The tier at its limit.  A cache for at most two items in memory, after a \<open>set\<close> for the
  first state of the file at time 0 and a \<open>set\<close> for the second state at time 1; then a
  \<open>set\<close> for the third state at time 2, which finds two items, evicts the one accessed
  least recently and inserts; then a \<open>get\<close> for the first state, which finds its entry in
  the cache directory and, the tier being at its limit, does not load it into memory.
\<close>

definition pair_cache :: cache where
  "pair_cache =
     snd (cache_set plain_hashing
            (snd (cache_set plain_hashing (cache_init 24 2 False) quiet_io (fs_with file_v1)
                    (asc ''f'') (asc ''one'') [] 0))
            quiet_io (fs_with file_v2) (asc ''f'') (asc ''two'') [] 1)"

definition pair_cache_next :: cache where
  "pair_cache_next =
     snd (cache_set plain_hashing pair_cache quiet_io (fs_with file_v3) (asc ''f'')
            (asc ''three'') [] 2)"

lemma pair_cache_fields:
  "memory_cache pair_cache =
     [([1], \<lparr> content = asc ''one'', file_hash = [1], file_size = 1, file_mtime = 1,
              cache_time = 0, access_count = 1, last_access = 0 \<rparr>),
      ([2], \<lparr> content = asc ''two'', file_hash = [2], file_size = 1, file_mtime = 1,
              cache_time = 1, access_count = 1, last_access = 1 \<rparr>)]"
  "max_memory_items pair_cache = 2" "max_age_hours pair_cache = 24" "redis pair_cache = None"
  "disk pair_cache [1] =
     Some (Some \<lparr> content = asc ''one'', file_hash = [1], file_size = 1, file_mtime = 1,
                  cache_time = 0, access_count = 1, last_access = 0 \<rparr>)"
  by (simp_all add: pair_cache_def cache_set_def cache_init_def plain_hashing_def
      quiet_io_def fs_with_def file_v1_def file_v2_def get_file_hash_def get_cache_key_def
      st_size_def Let_def)

lemma pair_cache_next_fields:
  "memory_cache pair_cache_next =
     [([2], \<lparr> content = asc ''two'', file_hash = [2], file_size = 1, file_mtime = 1,
              cache_time = 1, access_count = 1, last_access = 1 \<rparr>),
      ([3, 3], \<lparr> content = asc ''three'', file_hash = [3, 3], file_size = 2, file_mtime = 2,
              cache_time = 2, access_count = 1, last_access = 2 \<rparr>)]"
  "max_memory_items pair_cache_next = 2" "max_age_hours pair_cache_next = 24"
  "redis pair_cache_next = None"
  by (simp_all add: pair_cache_next_def cache_set_def pair_cache_fields(1-4) plain_hashing_def
      quiet_io_def fs_with_def file_v3_def get_file_hash_def get_cache_key_def
      st_size_def Let_def evict_memory_cache_def dict_del_def)

lemma pair_cache_next_disk:
  "disk pair_cache_next [1] =
     Some (Some \<lparr> content = asc ''one'', file_hash = [1], file_size = 1, file_mtime = 1,
                  cache_time = 0, access_count = 1, last_access = 0 \<rparr>)"
  using pair_cache_fields(5)
  by (simp add: pair_cache_next_def cache_set_def pair_cache_fields(1-4) plain_hashing_def
      quiet_io_def fs_with_def file_v3_def get_file_hash_def get_cache_key_def
      st_size_def Let_def)

lemma memory_tier_at_limit:
  "int (length (memory_cache pair_cache)) = max_memory_items pair_cache \<and>
   map fst (memory_cache pair_cache_next) = [[2], [3, 3]] \<and>
   int (length (memory_cache pair_cache_next)) = max_memory_items pair_cache_next \<and>
   fst (cache_get plain_hashing pair_cache_next quiet_io (fs_with file_v1) (asc ''f'') [] 3)
     = Some (asc ''one'') \<and>
   memory_cache
     (snd (cache_get plain_hashing pair_cache_next quiet_io (fs_with file_v1) (asc ''f'') [] 3))
     = memory_cache pair_cache_next"
proof -
  have a: "int (length (memory_cache pair_cache)) = max_memory_items pair_cache"
    by (simp add: pair_cache_fields)
  have b: "map fst (memory_cache pair_cache_next) = [[2], [3, 3]]"
    by (simp add: pair_cache_next_fields)
  have c: "int (length (memory_cache pair_cache_next)) = max_memory_items pair_cache_next"
    by (simp add: pair_cache_next_fields)
  have g: "cache_get plain_hashing pair_cache_next quiet_io (fs_with file_v1) (asc ''f'') [] 3
             = (Some (asc ''one''), pair_cache_next)"
    using pair_cache_next_disk
    by (simp add: cache_get_def get_redis_def get_disk_def promote_def valid_entry_def
        is_expired_def is_file_changed_def pair_cache_next_fields plain_hashing_def
        quiet_io_def fs_with_def file_v1_def get_file_hash_def get_cache_key_def st_size_def
        Let_def)
  from a b c g show ?thesis by simp
qed

text \<open>
  C10.  The claim fails on the code for a limit of zero, which the constructor accepts: a
  cache built with \<open>max_memory_items = 0\<close> has an empty memory tier, \<open>set\<close> finds the tier at
  its limit and calls \<open>_evict_memory_cache\<close>, which returns at once for an empty dictionary,
  and then inserts: the tier holds one item, more than \<open>max_memory_items\<close>.
\<close>

definition zero_cache :: cache where
  "zero_cache = cache_init 24 0 False"

theorem set_overfills_zero_limit:
  "max_memory_items zero_cache = 0 \<and> length (memory_cache zero_cache) = 0 \<and>
   fst (cache_set plain_hashing zero_cache quiet_io (fs_with file_v1) (asc ''f'')
          (asc ''one'') [] 0) = True \<and>
   max_memory_items (snd (cache_set plain_hashing zero_cache quiet_io (fs_with file_v1)
                            (asc ''f'') (asc ''one'') [] 0)) = 0 \<and>
   length (memory_cache (snd (cache_set plain_hashing zero_cache quiet_io (fs_with file_v1)
                                (asc ''f'') (asc ''one'') [] 0))) = 1"
  by (simp add: zero_cache_def cache_init_def cache_set_def fs_with_def Let_def
      evict_memory_cache_def)

section \<open>The worker pool: the first half of \<open>_extract_pdf_pages_concurrent\<close>\<close>













subsection \<open>Every task is resolved exactly once\<close>






















end
